theory Spec2Isabelle
  imports Main "HOL-Library.AList"
begin

section \<open>Response paths and their string keys\<close>

text \<open>
  A response path is the linked list \<^verbatim>\<open>{ prev: ResponsePath | undefined, key: string | number }\<close>
  of the graphql package: the last segment first, each segment a field name or an array
  index. The tracer never looks at a path directly; it keys its node registry by
  \<^verbatim>\<open>responsePathAsString\<close>.
\<close>

datatype path_key = FieldName string | Index nat

datatype ResponsePath = ResponsePath (prev: "ResponsePath option") (key: path_key)

text \<open>
  Modelled from the spec: \<^verbatim>\<open>responsePathAsArray\<close> is imported from the graphql package
  and is not part of the sources. It walks the \<^verbatim>\<open>prev\<close> links pushing each key, then
  reverses, so that the array reads from the root to the leaf.
\<close>

fun flattened :: "ResponsePath \<Rightarrow> path_key list" where
  "flattened (ResponsePath None k) = [k]"
| "flattened (ResponsePath (Some p) k) = k # flattened p"

definition responsePathAsArray :: "ResponsePath \<Rightarrow> path_key list" where
  "responsePathAsArray p = rev (flattened p)"

text \<open>
  \<^verbatim>\<open>Array.prototype.join\<close> turns every element into a string first. A string
  stays as it is; a number that is an array index prints as its decimal numeral.
\<close>

definition digit_char :: "nat \<Rightarrow> char" where
  "digit_char d = ''0123456789'' ! d"

fun decimal :: "nat \<Rightarrow> string" where
  "decimal n =
     (if 10 \<le> n then decimal (n div 10) @ [digit_char (n mod 10)]
      else [digit_char n])"

declare decimal.simps [simp del]

fun key_to_string :: "path_key \<Rightarrow> string" where
  "key_to_string (FieldName s) = s"
| "key_to_string (Index i) = decimal i"

fun join :: "string \<Rightarrow> string list \<Rightarrow> string" where
  "join sep [] = []"
| "join sep [x] = x"
| "join sep (x # y # ys) = x @ sep @ join sep (y # ys)"

text \<open>
  \<^verbatim>\<open>
  function responsePathAsString(p: ResponsePath | undefined) {
    if (p === undefined) {
      return '';
    }
    return responsePathAsArray(p).join('.');
  }
  \<close>
\<close>

fun responsePathAsString :: "ResponsePath option \<Rightarrow> string" where
  "responsePathAsString None = ''''"
| "responsePathAsString (Some p) = join ''.'' (map key_to_string (responsePathAsArray p))"

text \<open>
  The segments for which the key is collision-free: a field name that is not empty, holds
  no separator and is not the numeral of an index. Every GraphQL name
  (\<^verbatim>\<open>/[_A-Za-z][_0-9A-Za-z]*/\<close>) is one.
\<close>

definition is_digit :: "char \<Rightarrow> bool" where
  "is_digit c = (c \<in> set ''0123456789'')"

definition is_numeral :: "string \<Rightarrow> bool" where
  "is_numeral s = (s \<noteq> [] \<and> list_all is_digit s \<and> (hd s = CHR ''0'' \<longrightarrow> s = ''0''))"

fun dot_free_key :: "path_key \<Rightarrow> bool" where
  "dot_free_key (FieldName s) = (CHR ''.'' \<notin> set s)"
| "dot_free_key (Index i) = True"

fun plain_key :: "path_key \<Rightarrow> bool" where
  "plain_key (FieldName s) = (s \<noteq> [] \<and> CHR ''.'' \<notin> set s \<and> \<not> is_numeral s)"
| "plain_key (Index i) = True"

text \<open>The names of GraphQL: a letter or an underscore, then letters, digits and underscores.\<close>

definition name_start :: string where
  "name_start = ''_ABCDEFGHIJKLMNOPQRSTUVWXYZabcdefghijklmnopqrstuvwxyz''"

definition graphql_name :: "string \<Rightarrow> bool" where
  "graphql_name s =
     (s \<noteq> [] \<and> hd s \<in> set name_start \<and> set s \<subseteq> set (name_start @ ''0123456789''))"

definition dot_free_path :: "ResponsePath \<Rightarrow> bool" where
  "dot_free_path p = list_all dot_free_key (flattened p)"

definition plain_path :: "ResponsePath \<Rightarrow> bool" where
  "plain_path p = list_all plain_key (flattened p)"

text \<open>The claim's own example path, field \<rightarrow> 2 \<rightarrow> subfield, as the executor builds it.\<close>

definition example_path :: ResponsePath where
  "example_path =
     ResponsePath (Some (ResponsePath (Some (ResponsePath None (FieldName ''field''))) (Index 2)))
       (FieldName ''subfield'')"

section \<open>JavaScript values and \<^verbatim>\<open>JSON.stringify\<close>\<close>

text \<open>
  Variable values are JavaScript values. \<open>JCircular\<close> stands for a value that
  \<^verbatim>\<open>JSON.stringify\<close> cannot serialise (a reference back into an enclosing object):
  serialising it raises a \<^verbatim>\<open>TypeError\<close>. \<open>JFunction\<close> is a function object, which
  \<^verbatim>\<open>JSON.stringify\<close> treats as it treats \<^verbatim>\<open>undefined\<close>. Numbers are the integers,
  printed in decimal. An object is the list of its own properties in insertion order.
\<close>

datatype js_value =
    JUndefined
  | JNull
  | JBool bool
  | JNumber int
  | JString string
  | JArray "js_value list"
  | JObject "(string \<times> js_value) list"
  | JCircular
  | JFunction

datatype js_error = TypeError

type_synonym js_record = "(string \<times> js_value) list"

text \<open>
  The objects that are read by name are plain objects: their prototype is
  \<^verbatim>\<open>Object.prototype\<close>, whose members every such object inherits. These are eleven
  methods and the accessor \<^verbatim>\<open>__proto__\<close>, which reads as the prototype itself, an
  object with no enumerable property.
\<close>

definition Object_prototype_methods :: "string list" where
  "Object_prototype_methods =
     [''constructor'', ''__defineGetter__'', ''__defineSetter__'', ''hasOwnProperty'',
      ''__lookupGetter__'', ''__lookupSetter__'', ''isPrototypeOf'', ''propertyIsEnumerable'',
      ''toString'', ''valueOf'', ''toLocaleString'']"

definition inherited_property :: "string \<Rightarrow> js_value" where
  "inherited_property name =
     (if name \<in> set Object_prototype_methods then JFunction
      else if name = ''__proto__'' then JObject []
      else JUndefined)"

text \<open>
  \<^verbatim>\<open>obj[name]\<close>: the own property of that name, or else the inherited one; a property
  that is nowhere on the prototype chain reads as \<^verbatim>\<open>undefined\<close>.
\<close>

definition get_property :: "js_record \<Rightarrow> string \<Rightarrow> js_value" where
  "get_property obj name = (case map_of obj name of None \<Rightarrow> inherited_property name | Some v \<Rightarrow> v)"

text \<open>
  \<^verbatim>\<open>obj[name] = v\<close> on an object made by \<^verbatim>\<open>{}\<close> and filled by assignments: the
  assignment creates the own property or overwrites it. Assigning to \<^verbatim>\<open>__proto__\<close>
  calls the accessor of the prototype instead, and no property is created.
\<close>

definition set_property :: "js_record \<Rightarrow> string \<Rightarrow> js_value \<Rightarrow> js_record" where
  "set_property obj name v = (if name = ''__proto__'' then obj else AList.update name v obj)"

definition number_to_string :: "int \<Rightarrow> string" where
  "number_to_string i = (if 0 \<le> i then decimal (nat i) else CHR ''-'' # decimal (nat (- i)))"

definition hex_char :: "nat \<Rightarrow> char" where
  "hex_char d = ''0123456789abcdef'' ! d"

text \<open>
  The string quoting of \<^verbatim>\<open>JSON.stringify\<close>: the double quote (0x22) and the backslash
  (0x5C) are escaped with a backslash, the control characters by their short escape or
  as \<^verbatim>\<open>\u00XX\<close>.
\<close>

definition escape_char :: "char \<Rightarrow> string" where
  "escape_char c =
     (let n = (of_char c :: nat) in
      if n = 0x22 then [CHR 0x5C, CHR 0x22]
      else if n = 0x5C then [CHR 0x5C, CHR 0x5C]
      else if n = 0x08 then [CHR 0x5C, CHR ''b'']
      else if n = 0x09 then [CHR 0x5C, CHR ''t'']
      else if n = 0x0A then [CHR 0x5C, CHR ''n'']
      else if n = 0x0C then [CHR 0x5C, CHR ''f'']
      else if n = 0x0D then [CHR 0x5C, CHR ''r'']
      else if n < 0x20 then [CHR 0x5C, CHR ''u'', CHR ''0'', CHR ''0'', hex_char (n div 16), hex_char (n mod 16)]
      else [c])"

definition quote :: "string \<Rightarrow> string" where
  "quote s = [CHR 0x22] @ concat (map escape_char s) @ [CHR 0x22]"

text \<open>
  \<^verbatim>\<open>JSON.stringify(v)\<close> raises (\<open>Inl\<close>), returns \<^verbatim>\<open>undefined\<close> (\<open>Inr None\<close>) or
  returns a string. Inside an array \<^verbatim>\<open>undefined\<close> and a function print as
  \<^verbatim>\<open>null\<close>; inside an object a property holding one of them is left out.
\<close>

fun JSON_stringify :: "js_value \<Rightarrow> js_error + string option"
  and stringify_elements :: "js_value list \<Rightarrow> js_error + string list"
  and stringify_properties :: "(string \<times> js_value) list \<Rightarrow> js_error + string list"
where
  "JSON_stringify JUndefined = Inr None"
| "JSON_stringify JNull = Inr (Some ''null'')"
| "JSON_stringify (JBool b) = Inr (Some (if b then ''true'' else ''false''))"
| "JSON_stringify (JNumber i) = Inr (Some (number_to_string i))"
| "JSON_stringify (JString s) = Inr (Some (quote s))"
| "JSON_stringify (JArray vs) =
     (case stringify_elements vs of
        Inl e \<Rightarrow> Inl e
      | Inr ss \<Rightarrow> Inr (Some (''['' @ join '','' ss @ '']'')))"
| "JSON_stringify (JObject ps) =
     (case stringify_properties ps of
        Inl e \<Rightarrow> Inl e
      | Inr ss \<Rightarrow> Inr (Some (''{'' @ join '','' ss @ ''}'')))"
| "JSON_stringify JCircular = Inl TypeError"
| "JSON_stringify JFunction = Inr None"
| "stringify_elements [] = Inr []"
| "stringify_elements (v # vs) =
     (case JSON_stringify v of
        Inl e \<Rightarrow> Inl e
      | Inr r \<Rightarrow>
          (case stringify_elements vs of
             Inl e \<Rightarrow> Inl e
           | Inr ss \<Rightarrow> Inr ((case r of None \<Rightarrow> ''null'' | Some s \<Rightarrow> s) # ss)))"
| "stringify_properties [] = Inr []"
| "stringify_properties ((k, v) # ps) =
     (case JSON_stringify v of
        Inl e \<Rightarrow> Inl e
      | Inr r \<Rightarrow>
          (case stringify_properties ps of
             Inl e \<Rightarrow> Inl e
           | Inr ss \<Rightarrow> Inr ((case r of None \<Rightarrow> [] | Some s \<Rightarrow> [quote k @ '':'' @ s]) @ ss)))"

text \<open>\<^verbatim>\<open>xs.forEach(f)\<close> with a callback that may raise: the first exception ends the loop.\<close>

fun forEach :: "('a \<Rightarrow> 's \<Rightarrow> js_error + 's) \<Rightarrow> 'a list \<Rightarrow> 's \<Rightarrow> js_error + 's" where
  "forEach f [] s = Inr s"
| "forEach f (x # xs) s = (case f x s of Inl e \<Rightarrow> Inl e | Inr s' \<Rightarrow> forEach f xs s')"

section \<open>Trace details: the variables of the request\<close>

text \<open>
  \<^verbatim>\<open>VariableValueOptions\<close> is declared in \<^verbatim>\<open>./agent\<close>; its three shapes are the ones
  \<^verbatim>\<open>makeTraceDetails\<close> tests for with \<^verbatim>\<open>in\<close>. The value modifier receives the
  variables and the operation string.
\<close>

datatype VariableValueOptions =
    ValueModifier "js_record \<Rightarrow> string option \<Rightarrow> js_record"
  | ExceptVariableNames "string list"
  | SafelistAll bool

text \<open>
  \<^verbatim>\<open>Trace.Details\<close>: \<^verbatim>\<open>variablesJson\<close> maps a variable name to what was recorded for
  it. The recorded value is whatever the assignment stores: a string, or \<^verbatim>\<open>undefined\<close>
  (\<open>None\<close>) were \<^verbatim>\<open>JSON.stringify\<close> to return that.
\<close>

record Details =
  variablesJson :: "(string \<times> string option) list"

definition new_Details :: Details where
  "new_Details = \<lparr>variablesJson = []\<rparr>"

text \<open>
  \<^verbatim>\<open>
  function cleanModifiedVariables(originalKeys, modifiedVariables) {
    let cleanedVariables: Record<string, any> = {};
    originalKeys.forEach(name => {
      cleanedVariables[name] = modifiedVariables[name];
    });
    return cleanedVariables;
  }
  \<close>
  The object that the value modifier returns is a plain object. A name that it does not
  hold as an own property is read through the prototype chain all the same.
\<close>

definition cleanModifiedVariables :: "string list \<Rightarrow> js_record \<Rightarrow> js_record" where
  "cleanModifiedVariables originalKeys modifiedVariables =
     fold (\<lambda>name cleanedVariables.
             set_property cleanedVariables name (get_property modifiedVariables name))
          originalKeys []"

text \<open>The immediately invoked function at the head of \<^verbatim>\<open>makeTraceDetails\<close>.\<close>

fun variablesToRecord ::
  "js_record \<Rightarrow> VariableValueOptions option \<Rightarrow> string option \<Rightarrow> js_record" where
  "variablesToRecord variables (Some (ValueModifier valueModifier)) operationString =
     cleanModifiedVariables (map fst variables) (valueModifier variables operationString)"
| "variablesToRecord variables sendVariableValues operationString = variables"

text \<open>
  The test that sends a variable to the private branch:
  \<^verbatim>\<open>
  sendVariableValues == null ||
  ('safelistAll' in sendVariableValues && !sendVariableValues.safelistAll) ||
  ('exceptVariableNames' in sendVariableValues &&
    sendVariableValues.exceptVariableNames.includes(name))
  \<close>
\<close>

fun is_private :: "VariableValueOptions option \<Rightarrow> string \<Rightarrow> bool" where
  "is_private None name = True"
| "is_private (Some (SafelistAll safelistAll)) name = (\<not> safelistAll)"
| "is_private (Some (ExceptVariableNames exceptVariableNames)) name =
     (name \<in> set exceptVariableNames)"
| "is_private (Some (ValueModifier valueModifier)) name = False"

definition unable_to_convert :: string where
  "unable_to_convert = ''[Unable to convert value to JSON]''"

definition assign_variable :: "string \<Rightarrow> string option \<Rightarrow> Details \<Rightarrow> Details" where
  "assign_variable name r details =
     details\<lparr>variablesJson := AList.update name r (variablesJson details)\<rparr>"

text \<open>
  The body of the loop over \<^verbatim>\<open>Object.keys(variablesToRecord)\<close>. The \<^verbatim>\<open>try\<close> block
  holds the encoding and the assignment; the \<^verbatim>\<open>catch\<close> block encodes the fixed
  message instead, and an exception raised there would leave the loop.
\<close>

definition recordVariable ::
  "VariableValueOptions option \<Rightarrow> js_record \<Rightarrow> string \<Rightarrow> Details \<Rightarrow> js_error + Details" where
  "recordVariable sendVariableValues toRecord name details =
     (if is_private sendVariableValues name
      then Inr (assign_variable name (Some '''') details)
      else
        (case (if get_property toRecord name = JNull \<or> get_property toRecord name = JUndefined
               then Inr (Some '''')
               else JSON_stringify (get_property toRecord name)) of
           Inr r \<Rightarrow> Inr (assign_variable name r details)
         | Inl e \<Rightarrow>
             (case JSON_stringify (JString unable_to_convert) of
                Inr r \<Rightarrow> Inr (assign_variable name r details)
              | Inl e' \<Rightarrow> Inl e')))"

text \<open>
  What the loop body stores under a name, read off its three assignments: the marker for a
  private variable, the encoding, or the encoded message when the encoding raised.
\<close>

definition stored_for :: "VariableValueOptions option \<Rightarrow> js_record \<Rightarrow> string \<Rightarrow> string option" where
  "stored_for sendVariableValues toRecord name =
     (if is_private sendVariableValues name then Some ''''
      else if get_property toRecord name = JNull \<or> get_property toRecord name = JUndefined
      then Some ''''
      else (case JSON_stringify (get_property toRecord name) of
              Inr r \<Rightarrow> r
            | Inl e \<Rightarrow> Some (quote unable_to_convert)))"

definition makeTraceDetails ::
  "js_record \<Rightarrow> VariableValueOptions option \<Rightarrow> string option \<Rightarrow> js_error + Details" where
  "makeTraceDetails variables sendVariableValues operationString =
     (let toRecord = variablesToRecord variables sendVariableValues operationString
      in forEach (recordVariable sendVariableValues toRecord) (map fst toRecord) new_Details)"

text \<open>
  The deprecated option: \<^verbatim>\<open>privateVariables: Array<String> | boolean\<close>, wrapped into the
  new one.
\<close>

datatype private_option = PrivateList "string list" | PrivateFlag bool

fun makeTraceDetailsLegacy :: "js_record \<Rightarrow> private_option \<Rightarrow> js_error + Details" where
  "makeTraceDetailsLegacy variables (PrivateList privateVariables) =
     makeTraceDetails variables (Some (ExceptVariableNames privateVariables)) None"
| "makeTraceDetailsLegacy variables (PrivateFlag privateVariables) =
     makeTraceDetails variables (Some (SafelistAll (\<not> privateVariables))) None"

text \<open>The inputs of the claims' examples.\<close>

definition example_variables :: js_record where
  "example_variables = [(''a'', JNumber 1), (''b'', JString ''x'')]"

definition omit_everything :: "js_record \<Rightarrow> string option \<Rightarrow> js_record" where
  "omit_everything variables operationString = []"

definition add_a_key :: "js_record \<Rightarrow> string option \<Rightarrow> js_record" where
  "add_a_key variables operationString = AList.update ''added'' (JBool True) variables"

definition method_named_variables :: js_record where
  "method_named_variables = [(''toString'', JNumber 1), (''id'', JNull)]"

definition recorded_names :: "js_error + Details \<Rightarrow> string set" where
  "recorded_names r = (case r of Inl e \<Rightarrow> {} | Inr d \<Rightarrow> fst ` set (variablesJson d))"

section \<open>The HTTP part of a trace and the request headers\<close>

text \<open>
  \<^verbatim>\<open>String.prototype.toLowerCase\<close> on header names, which are ASCII: the letters A to Z
  go to a to z and every other character stays.
\<close>

definition lower_char :: "char \<Rightarrow> char" where
  "lower_char c =
     (case map_of (zip ''ABCDEFGHIJKLMNOPQRSTUVWXYZ'' ''abcdefghijklmnopqrstuvwxyz'') c of
        None \<Rightarrow> c
      | Some l \<Rightarrow> l)"

definition toLowerCase :: "string \<Rightarrow> string" where
  "toLowerCase s = map lower_char s"

text \<open>\<^verbatim>\<open>Trace.HTTP\<close> of the protobuf package, with the fields the tracer sets.\<close>

datatype Method = UNKNOWN | OPTIONS | GET | HEAD | POST | PUT | DELETE | TRACE | CONNECT | PATCH

record HTTP =
  http_method :: Method
  http_host :: "string option"
  http_path :: "string option"
  requestHeaders :: "(string \<times> string list) list"

text \<open>
  \<^verbatim>\<open>Trace.HTTP.Method[o.request.method] || Trace.HTTP.Method.UNKNOWN\<close>: the enum read
  by the name of the request's method.
\<close>

definition Method_of :: "string \<Rightarrow> Method" where
  "Method_of name =
     (case map_of [(''UNKNOWN'', UNKNOWN), (''OPTIONS'', OPTIONS), (''GET'', GET), (''HEAD'', HEAD),
                   (''POST'', POST), (''PUT'', PUT), (''DELETE'', DELETE), (''TRACE'', TRACE),
                   (''CONNECT'', CONNECT), (''PATCH'', PATCH)] name of
        None \<Rightarrow> UNKNOWN
      | Some m \<Rightarrow> m)"

definition new_HTTP :: "string \<Rightarrow> HTTP" where
  "new_HTTP request_method =
     \<lparr>http_method = Method_of request_method, http_host = None, http_path = None, requestHeaders = []\<rparr>"

text \<open>
  The header option, \<^verbatim>\<open>{ except: Array<String> } | { safelistAll: boolean }\<close>. The
  headers of a request are iterated as pairs of a name and a value.
\<close>

datatype SendHeaders = HeadersExcept "string list" | HeadersSafelistAll bool

type_synonym Headers = "(string \<times> string) list"

text \<open>
  The test that skips a header (its name is \<^verbatim>\<open>key\<close> in the source):
  \<^verbatim>\<open>
  sendHeaders && 'except' in sendHeaders &&
  sendHeaders.except.some(exceptHeader => {
    return exceptHeader.toLowerCase() === key.toLowerCase();
  })
  \<close>
\<close>

fun is_excepted :: "SendHeaders \<Rightarrow> string \<Rightarrow> bool" where
  "is_excepted (HeadersExcept except) headerKey =
     list_ex (\<lambda>exceptHeader. toLowerCase exceptHeader = toLowerCase headerKey) except"
| "is_excepted (HeadersSafelistAll safelistAll) headerKey = False"

text \<open>The body of the loop over the headers: the \<^verbatim>\<open>continue\<close>, then the \<^verbatim>\<open>switch\<close>.\<close>

fun recordHeader :: "SendHeaders \<Rightarrow> string \<times> string \<Rightarrow> HTTP \<Rightarrow> HTTP" where
  "recordHeader sendHeaders (headerKey, v) http =
     (if is_excepted sendHeaders headerKey then http
      else if headerKey = ''authorization'' \<or> headerKey = ''cookie'' \<or> headerKey = ''set-cookie''
      then http
      else http\<lparr>requestHeaders := AList.update headerKey [v] (requestHeaders http)\<rparr>)"

fun safelist_is_off :: "SendHeaders \<Rightarrow> bool" where
  "safelist_is_off (HeadersSafelistAll safelistAll) = (\<not> safelistAll)"
| "safelist_is_off (HeadersExcept except) = False"

fun makeHTTPRequestHeaders :: "HTTP \<Rightarrow> Headers \<Rightarrow> SendHeaders option \<Rightarrow> HTTP" where
  "makeHTTPRequestHeaders http headers None = http"
| "makeHTTPRequestHeaders http headers (Some sendHeaders) =
     (if safelist_is_off sendHeaders then http
      else fold (recordHeader sendHeaders) headers http)"

fun makeHTTPRequestHeadersLegacy :: "HTTP \<Rightarrow> Headers \<Rightarrow> private_option \<Rightarrow> HTTP" where
  "makeHTTPRequestHeadersLegacy http headers (PrivateList privateHeaders) =
     makeHTTPRequestHeaders http headers (Some (HeadersExcept privateHeaders))"
| "makeHTTPRequestHeadersLegacy http headers (PrivateFlag privateHeaders) =
     makeHTTPRequestHeaders http headers (Some (HeadersSafelistAll (\<not> privateHeaders)))"


definition example_headers :: Headers where
  "example_headers =
     [(''authorization'', ''Bearer t''), (''cookie'', ''c=1''), (''set-cookie'', ''d=2''),
      (''x-api-key'', ''k''), (''accept'', ''*/*'')]"

section \<open>The trace and its tree of nodes\<close>

text \<open>
  \<^verbatim>\<open>Trace.Node\<close>, \<^verbatim>\<open>Trace.Error\<close> and \<^verbatim>\<open>Trace.Location\<close> of the protobuf package. A
  node is an object: the registry and the child sequences hold references to it. The model
  keeps the node objects in a heap, a list in which the reference to a node is its
  position; creating a node appends to the heap. \<^verbatim>\<open>fieldName\<close> and \<^verbatim>\<open>index\<close> are
  the two members of the node's \<^verbatim>\<open>id\<close>; a node just created has neither.
\<close>

record Location =
  line :: nat
  column :: nat

record Trace_Error =
  message :: string
  location :: "Location list"
  json :: string

record Node =
  fieldName :: "string option"
  index :: "nat option"
  type :: string
  parentType :: string
  startTime :: int
  endTime :: int
  child :: "nat list"
  error :: "Trace_Error list"

definition new_Node :: Node where
  "new_Node = \<lparr>fieldName = None, index = None, type = '''', parentType = '''',
                startTime = 0, endTime = 0, child = [], error = []\<rparr>"

subsection \<open>Errors of the graphql package and the options of the agent\<close>

text \<open>
  A \<^verbatim>\<open>GraphQLError\<close> with the fields that \<^verbatim>\<open>rewriteError\<close> and \<^verbatim>\<open>addError\<close> read.
  Error objects live in a store; a reference to an error is its position there. The
  extensions, the path and the locations of an error are objects too (an object and two
  arrays): the error holds references to them, and a copy of the error holds the same
  references. They live in the three stores of \<open>Shared\<close>, and the three fields hold
  positions there. An AST node is known by its identity, a source by its body, the
  original error by its message.
\<close>

type_synonym ASTNode = nat

record GraphQLError =
  message :: string
  locations :: "nat option"
  path :: "nat option"
  nodes :: "ASTNode list option"
  source :: "string option"
  positions :: "nat list option"
  originalError :: "string option"
  extensions :: "nat option"

record Shared =
  shared_extensions :: "js_record list"
  shared_paths :: "path_key list list"
  shared_locations :: "Location list list"




text \<open>
  What a call of the user's \<^verbatim>\<open>rewriteError\<close> hook does. It is handed the clone, and
  through the clone's references it reaches the shared objects. It returns \<^verbatim>\<open>null\<close>,
  or a value that is no \<^verbatim>\<open>GraphQLError\<close>, or the clone itself, or an error object of
  its own making; it may have assigned to the clone's fields meanwhile (\<open>clone_after\<close>),
  and it may have written into the shared objects or made new ones (\<open>shared_after\<close>).
  The original error object is not among the things it is handed.
\<close>

datatype returned =
    ReturnsNull
  | ReturnsOther js_value
  | ReturnsClone
  | ReturnsNew GraphQLError

record hook_outcome =
  returned :: returned
  clone_after :: GraphQLError
  shared_after :: Shared

record ClientInfo =
  clientName :: "string option"
  clientVersion :: "string option"
  clientReferenceId :: "string option"

text \<open>
  The request metrics and the request context of the pipeline
  (\<^verbatim>\<open>GraphQLRequestContext\<close>, declared in apollo-server-core), with the members the
  extension reads.
\<close>

type_synonym DocumentNode = string

record Metrics =
  persistedQueryHit :: "bool option"
  persistedQueryRegister :: "bool option"
  responseCacheHit :: "bool option"
  forbiddenOperation :: "bool option"
  registeredOperation :: "bool option"

record RequestContext =
  metrics :: Metrics
  queryHash :: string
  operationName :: "string option"
  document :: "DocumentNode option"
  http_headers :: "Headers option"
  extensions_clientInfo :: "ClientInfo option"

text \<open>\<^verbatim>\<open>EngineReportingOptions\<close>, declared in \<^verbatim>\<open>./agent\<close>: the options the extension reads.\<close>

record EngineReportingOptions =
  sendHeaders :: "SendHeaders option"
  privateHeaders :: "private_option option"
  sendVariableValues :: "VariableValueOptions option"
  privateVariables :: "private_option option"
  rewriteError :: "(GraphQLError \<Rightarrow> Shared \<Rightarrow> hook_outcome) option"
  generateClientInfo :: "(RequestContext \<Rightarrow> ClientInfo option) option"

definition no_options :: EngineReportingOptions where
  "no_options = \<lparr>sendHeaders = None, privateHeaders = None, sendVariableValues = None,
                  privateVariables = None, rewriteError = None, generateClientInfo = None\<rparr>"

subsection \<open>The trace and the extension\<close>

record Timestamp =
  seconds :: int
  nanos :: int

record Trace =
  startTime :: "Timestamp option"
  endTime :: "Timestamp option"
  durationNs :: int
  root :: nat
  http :: "HTTP option"
  details :: "Details option"
  clientName :: string
  clientVersion :: string
  clientReferenceId :: string
  fullQueryCacheHit :: bool
  forbiddenOperation :: bool
  registeredOperation :: bool
  persistedQueryHit :: bool
  persistedQueryRegister :: bool

definition new_Trace :: Trace where
  "new_Trace = \<lparr>startTime = None, endTime = None, durationNs = 0, root = 0, http = None,
                 details = None, clientName = '''', clientVersion = '''', clientReferenceId = '''',
                 fullQueryCacheHit = False, forbiddenOperation = False,
                 registeredOperation = False, persistedQueryHit = False,
                 persistedQueryRegister = False\<rparr>"

text \<open>
  The fields of \<^verbatim>\<open>EngineReportingExtension\<close>. \<open>nodes\<close> is the \<^verbatim>\<open>Map\<close> from path keys
  to nodes: \<^verbatim>\<open>set\<close> is \<open>AList.update\<close>, \<^verbatim>\<open>get\<close> is \<open>map_of\<close>.
\<close>

record Extension =
  trace :: Trace
  heap :: "Node list"
  nodes :: "(string \<times> nat) list"
  startHrTime :: "(int \<times> int) option"
  explicitOperationName :: "string option"
  queryString :: "string option"
  documentAST :: "DocumentNode option"
  options :: EngineReportingOptions

text \<open>
  The constructor:
  \<^verbatim>\<open>
  const root = new Trace.Node();
  this.trace.root = root;
  this.nodes.set(responsePathAsString(undefined), root);
  \<close>
\<close>

definition new_Extension :: "EngineReportingOptions \<Rightarrow> Extension" where
  "new_Extension opts =
     \<lparr>trace = new_Trace\<lparr>root := 0\<rparr>,
      heap = [new_Node],
      nodes = AList.update (responsePathAsString None) 0 [],
      startHrTime = None, explicitOperationName = None, queryString = None,
      documentAST = None, options = opts\<rparr>"

subsection \<open>\<^verbatim>\<open>newNode\<close> and \<^verbatim>\<open>ensureParentNode\<close>\<close>

text \<open>\<^verbatim>\<open>parentNode.child.push(node)\<close>\<close>

definition push_child :: "nat \<Rightarrow> nat \<Rightarrow> Extension \<Rightarrow> Extension" where
  "push_child parentNode node this =
     this\<lparr>heap := (heap this)
       [parentNode := (heap this ! parentNode)\<lparr>child := child (heap this ! parentNode) @ [node]\<rparr>]\<rparr>"

text \<open>
  \<^verbatim>\<open>
  const id = path.key;
  if (typeof id === 'number') { node.index = id; } else { node.fieldName = id; }
  \<close>
\<close>

fun with_id :: "path_key \<Rightarrow> Node \<Rightarrow> Node" where
  "with_id (Index i) node = node\<lparr>index := Some i\<rparr>"
| "with_id (FieldName f) node = node\<lparr>fieldName := Some f\<rparr>"

text \<open>
  \<^verbatim>\<open>
  private newNode(path: ResponsePath): Trace.Node {
    const node = new Trace.Node();
    ...
    this.nodes.set(responsePathAsString(path), node);
    const parentNode = this.ensureParentNode(path);
    parentNode.child.push(node);
    return node;
  }
  private ensureParentNode(path: ResponsePath): Trace.Node {
    const parentPath = responsePathAsString(path.prev);
    const parentNode = this.nodes.get(parentPath);
    if (parentNode) { return parentNode; }
    return this.newNode(path.prev!);
  }
  \<close>
  Both return the node and the extension as the call left it. \<^verbatim>\<open>newNode\<close> called with
  \<^verbatim>\<open>undefined\<close>, which is what \<^verbatim>\<open>path.prev!\<close> is at a one-segment path, raises a
  \<^verbatim>\<open>TypeError\<close> at \<^verbatim>\<open>path.key\<close>. The path argument is named \<open>rp\<close> here.
\<close>

function newNode :: "ResponsePath \<Rightarrow> Extension \<Rightarrow> js_error + nat \<times> Extension"
  and ensureParentNode :: "ResponsePath \<Rightarrow> Extension \<Rightarrow> js_error + nat \<times> Extension"
where
  "newNode rp this =
     (let node = length (heap this);
          this1 = this\<lparr>heap := heap this @ [with_id (key rp) new_Node],
                       nodes := AList.update (responsePathAsString (Some rp)) node (nodes this)\<rparr>
      in case ensureParentNode rp this1 of
           Inl e \<Rightarrow> Inl e
         | Inr (parentNode, this2) \<Rightarrow> Inr (node, push_child parentNode node this2))"
| "ensureParentNode rp this =
     (let parentPath = responsePathAsString (prev rp) in
      case map_of (nodes this) parentPath of
        Some parentNode \<Rightarrow> Inr (parentNode, this)
      | None \<Rightarrow> (case prev rp of None \<Rightarrow> Inl TypeError | Some pp \<Rightarrow> newNode pp this))"
  by pat_completeness auto
termination
proof (relation "measure (\<lambda>call. case call of
                   Inl (rp, this) \<Rightarrow> 2 * length (flattened rp) + 1
                 | Inr (rp, this) \<Rightarrow> 2 * length (flattened rp))")
  fix rp :: ResponsePath and pp
  assume "prev rp = Some pp"
  then have "length (flattened pp) < length (flattened rp)" by (cases rp) auto
  then show "(Inl (pp, this), Inr (rp, this)) \<in> measure (\<lambda>call. case call of
                   Inl (rp, this) \<Rightarrow> 2 * length (flattened rp) + 1
                 | Inr (rp, this) \<Rightarrow> 2 * length (flattened rp))" for this :: Extension
    by simp
qed simp_all

declare newNode.simps [simp del] ensureParentNode.simps [simp del]

subsection \<open>Resolving a field\<close>

text \<open>
  \<^verbatim>\<open>durationHrTimeToNanos(hrtime) = hrtime[0] * 1e9 + hrtime[1]\<close>, on the delta that
  \<^verbatim>\<open>process.hrtime(this.startHrTime)\<close> returned.
\<close>

definition durationHrTimeToNanos :: "int \<times> int \<Rightarrow> int" where
  "durationHrTimeToNanos hrtime = fst hrtime * 1000000000 + snd hrtime"

text \<open>
  \<^verbatim>\<open>willResolveField\<close> creates the node of \<^verbatim>\<open>info.path\<close> and stamps it; the function
  it returns stamps the end time of that same node when the field has resolved.
\<close>

definition willResolveField ::
  "ResponsePath \<Rightarrow> string \<Rightarrow> string \<Rightarrow> int \<times> int \<Rightarrow> Extension \<Rightarrow> js_error + nat \<times> Extension" where
  "willResolveField rp returnType parentTypeName elapsed this =
     (case newNode rp this of
        Inl e \<Rightarrow> Inl e
      | Inr (node, this') \<Rightarrow>
          Inr (node, this'\<lparr>heap := (heap this')
                 [node := (heap this' ! node)\<lparr>type := returnType, parentType := parentTypeName,
                            Node.startTime := durationHrTimeToNanos elapsed\<rparr>]\<rparr>))"

definition didResolveField :: "nat \<Rightarrow> int \<times> int \<Rightarrow> Extension \<Rightarrow> Extension" where
  "didResolveField node elapsed this =
     this\<lparr>heap := (heap this)
       [node := (heap this ! node)\<lparr>Node.endTime := durationHrTimeToNanos elapsed\<rparr>]\<rparr>"

text \<open>
  The field events of a request in the order in which they arrive: the start of a field's
  resolution, and the call of the function a start returned (it holds its node).
\<close>

datatype field_event =
    ResolveStart ResponsePath string string "int \<times> int"
  | ResolveEnd nat "int \<times> int"

fun handle_event :: "field_event \<Rightarrow> Extension \<Rightarrow> js_error + Extension" where
  "handle_event (ResolveStart rp returnType parentTypeName elapsed) this =
     (case willResolveField rp returnType parentTypeName elapsed this of
        Inl e \<Rightarrow> Inl e
      | Inr (node, this') \<Rightarrow> Inr this')"
| "handle_event (ResolveEnd node elapsed) this = Inr (didResolveField node elapsed this)"

definition field_events :: "field_event list \<Rightarrow> Extension \<Rightarrow> js_error + Extension" where
  "field_events events this = forEach handle_event events this"


subsection \<open>The shape of the tree\<close>

text \<open>
  A node is reachable when it is the root or in the child sequence of a reachable node.
  \<open>all_children\<close> is every child sequence, one after the other: a node has exactly one
  parent, and is its child once, when it occurs there exactly once.
\<close>

inductive reachable :: "Node list \<Rightarrow> nat \<Rightarrow> bool" for h :: "Node list" where
  root: "0 < length h \<Longrightarrow> reachable h 0"
| child: "reachable h p \<Longrightarrow> p < length h \<Longrightarrow> c \<in> set (child (h ! p)) \<Longrightarrow> reachable h c"

code_pred reachable .

definition all_children :: "Node list \<Rightarrow> nat list" where
  "all_children h = concat (map child h)"

definition connected_tree :: "Extension \<Rightarrow> bool" where
  "connected_tree this =
     (map_of (nodes this) '''' = Some (root (trace this))
      \<and> root (trace this) = 0
      \<and> 0 < length (heap this)
      \<and> (\<forall>n < length (heap this). reachable (heap this) n)
      \<and> (\<forall>n < length (heap this). 0 < n \<longrightarrow> count_list (all_children (heap this)) n = 1)
      \<and> set (all_children (heap this)) = {1 ..< length (heap this)})"

text \<open>
  The invariant of the proofs. While \<^verbatim>\<open>newNode\<close> waits for \<^verbatim>\<open>ensureParentNode\<close>, the
  node it created is registered but in no child sequence yet: \<open>U\<close> is the set of these
  pending nodes. \<open>heap_le\<close> orders two heaps when the second has every node of the first
  with at least its children.
\<close>

definition heap_le :: "Node list \<Rightarrow> Node list \<Rightarrow> bool" where
  "heap_le h h' = (length h \<le> length h' \<and> (\<forall>i < length h. set (child (h ! i)) \<subseteq> set (child (h' ! i))))"

definition tree_inv :: "nat set \<Rightarrow> Extension \<Rightarrow> bool" where
  "tree_inv U this =
     (0 < length (heap this)
      \<and> root (trace this) = 0
      \<and> map_of (nodes this) '''' = Some 0
      \<and> (\<forall>k n. map_of (nodes this) k = Some n \<longrightarrow> n < length (heap this))
      \<and> distinct (all_children (heap this))
      \<and> set (all_children (heap this)) = {1 ..< length (heap this)} - U
      \<and> U \<subseteq> {1 ..< length (heap this)}
      \<and> (\<forall>n < length (heap this). n \<notin> U \<longrightarrow> reachable (heap this) n))"

definition pending_ok :: "nat \<Rightarrow> nat set \<Rightarrow> Extension \<Rightarrow> bool" where
  "pending_ok L U this = (\<forall>k n. map_of (nodes this) k = Some n \<and> n \<in> U \<longrightarrow> L < length k)"




text \<open>
  Example paths and event sequences: \<open>a\<close>, \<open>a.b\<close>, \<open>a.b.c\<close>; the field \<open>a.b\<close> starting
  before its parent \<open>a\<close>; the field \<open>a\<close> starting twice; and the field \<open>a.b.c\<close> starting
  with none of its ancestors started.
\<close>

definition path_a :: ResponsePath where
  "path_a = ResponsePath None (FieldName ''a'')"

definition path_a_b :: ResponsePath where
  "path_a_b = ResponsePath (Some path_a) (FieldName ''b'')"


definition same_path_twice :: "field_event list" where
  "same_path_twice =
     [ResolveStart path_a ''A'' ''Query'' (0, 10), ResolveStart path_a ''A'' ''Query'' (0, 20)]"



definition parent_then_child :: "field_event list" where
  "parent_then_child =
     [ResolveStart path_a ''A'' ''Query'' (0, 10), ResolveStart path_a_b ''String'' ''A'' (0, 20),
      ResolveEnd 2 (0, 30), ResolveEnd 1 (0, 40)]"

text \<open>
  One node per path: the registry holds every key once, every node once, and holds every
  node of the heap. \<open>fresh_starts\<close> says of a sequence of events that no start event
  arrives for a key that is registered already.
\<close>

definition registry_lists_every_node :: "Extension \<Rightarrow> bool" where
  "registry_lists_every_node this =
     (distinct (map fst (nodes this))
      \<and> distinct (map snd (nodes this))
      \<and> set (map snd (nodes this)) = {0 ..< length (heap this)})"

fun fresh_starts :: "field_event list \<Rightarrow> Extension \<Rightarrow> bool" where
  "fresh_starts [] this = True"
| "fresh_starts (ResolveStart rp returnType parentTypeName elapsed # events) this =
     (map_of (nodes this) (responsePathAsString (Some rp)) = None
      \<and> (case handle_event (ResolveStart rp returnType parentTypeName elapsed) this of
            Inl e \<Rightarrow> False
          | Inr this' \<Rightarrow> fresh_starts events this'))"
| "fresh_starts (ResolveEnd node elapsed # events) this =
     fresh_starts events (didResolveField node elapsed this)"

section \<open>Errors: the rewrite hook and the attachment to a node\<close>

text \<open>
  What the extension uses of the graphql package on an error object, taken as parameters:
  the locations that the constructor of \<^verbatim>\<open>GraphQLError\<close> computes from the nodes, the
  source and the positions; and \<^verbatim>\<open>JSON.stringify\<close> of an error, which reads what the
  error refers to as well.
\<close>

record graphql_package =
  locations_of :: "ASTNode list option \<Rightarrow> string option \<Rightarrow> nat list option \<Rightarrow> Location list option"
  error_json :: "GraphQLError \<Rightarrow> Shared \<Rightarrow> string"

text \<open>
  Modelled from the spec: the class \<^verbatim>\<open>GraphQLError\<close> belongs to the graphql package and
  is not part of the sources. The package defines \<^verbatim>\<open>message\<close>, \<^verbatim>\<open>locations\<close>,
  \<^verbatim>\<open>path\<close> and \<^verbatim>\<open>extensions\<close> as the enumerable properties of an error, and
  \<^verbatim>\<open>nodes\<close>, \<^verbatim>\<open>source\<close>, \<^verbatim>\<open>positions\<close> and \<^verbatim>\<open>originalError\<close> as properties that
  are not enumerable. \<^verbatim>\<open>Object.assign(Object.create(Object.getPrototypeOf(err)), err)\<close>
  copies the enumerable own properties into a new object of the same prototype: the
  values of the first four, which for three of them are the references that the error
  holds; the other four read as \<^verbatim>\<open>undefined\<close> on the copy.
\<close>

definition own_enumerable :: "GraphQLError \<Rightarrow> GraphQLError" where
  "own_enumerable e =
     e\<lparr>GraphQLError.nodes := None, source := None, positions := None, originalError := None\<rparr>"

text \<open>
  Modelled from the spec: \<^verbatim>\<open>new GraphQLError(message, nodes, source, positions, path,
  originalError, extensions)\<close> makes an error with these seven fields as they are passed,
  and with the locations the package computes, which are a new array.
\<close>

definition new_GraphQLError ::
  "graphql_package \<Rightarrow> string \<Rightarrow> ASTNode list option \<Rightarrow> string option \<Rightarrow> nat list option
     \<Rightarrow> nat option \<Rightarrow> string option \<Rightarrow> nat option \<Rightarrow> Shared \<Rightarrow> GraphQLError \<times> Shared" where
  "new_GraphQLError g msg ns src ps pth orig ext sh =
     (case locations_of g ns src ps of
        None \<Rightarrow>
          (\<lparr>message = msg, locations = None, path = pth, nodes = ns,
            source = src, positions = ps, originalError = orig, extensions = ext\<rparr>, sh)
      | Some ls \<Rightarrow>
          (\<lparr>message = msg, locations = Some (length (shared_locations sh)), path = pth,
            nodes = ns, source = src, positions = ps, originalError = orig, extensions = ext\<rparr>,
           sh\<lparr>shared_locations := shared_locations sh @ [ls]\<rparr>))"

text \<open>\<^verbatim>\<open>rewrittenError.extensions || err.extensions\<close>\<close>

definition or_else :: "'a option \<Rightarrow> 'a option \<Rightarrow> 'a option" where
  "or_else a b = (case a of None \<Rightarrow> b | Some x \<Rightarrow> Some x)"

text \<open>
  The last statement of \<^verbatim>\<open>rewriteError\<close>: the error that is reported when the hook
  returned the \<^verbatim>\<open>GraphQLError\<close> \<open>rewritten\<close> for the error \<open>original\<close>.
\<close>

definition merged_error ::
  "graphql_package \<Rightarrow> GraphQLError \<Rightarrow> GraphQLError \<Rightarrow> Shared \<Rightarrow> GraphQLError \<times> Shared" where
  "merged_error g rewritten original sh =
     new_GraphQLError g (message rewritten) (GraphQLError.nodes original) (source original)
       (positions original) (path original) (originalError original)
       (or_else (extensions rewritten) (extensions original)) sh"

text \<open>
  \<^verbatim>\<open>rewriteError(err)\<close>. \<open>err\<close> is the reference to an error of the store, and the result
  is the reference to the error to report, or \<open>None\<close> for \<^verbatim>\<open>null\<close>, with the two stores
  as the call left them. The clone is a new object. The hook is handed the clone and may
  keep what it assigned to it; an error that the hook made itself is a new object too, and
  so is the error that the last statement constructs.
  \<^verbatim>\<open>
  if (this.options.rewriteError) {
    const clonedError = Object.assign(Object.create(Object.getPrototypeOf(err)), err);
    const rewrittenError = this.options.rewriteError(clonedError);
    if (rewrittenError === null) { return null; }
    if (!(rewrittenError instanceof GraphQLError)) { return err; }
    return new GraphQLError(rewrittenError.message, err.nodes, err.source, err.positions,
      err.path, err.originalError, rewrittenError.extensions || err.extensions);
  }
  return err;
  \<close>
\<close>

definition rewriteError ::
  "graphql_package \<Rightarrow> nat \<Rightarrow> GraphQLError list \<Rightarrow> Shared \<Rightarrow> Extension
     \<Rightarrow> nat option \<times> GraphQLError list \<times> Shared" where
  "rewriteError g err store sh this =
     (case EngineReportingOptions.rewriteError (options this) of
        None \<Rightarrow> (Some err, store, sh)
      | Some hook \<Rightarrow>
          (let outcome = hook (own_enumerable (store ! err)) sh;
               store1 = store @ [clone_after outcome];
               sh1 = shared_after outcome
           in case returned outcome of
                ReturnsNull \<Rightarrow> (None, store1, sh1)
              | ReturnsOther v \<Rightarrow> (Some err, store1, sh1)
              | ReturnsClone \<Rightarrow>
                  (case merged_error g (clone_after outcome) (store ! err) sh1 of
                     (reported, sh2) \<Rightarrow> (Some (length store1), store1 @ [reported], sh2))
              | ReturnsNew rewritten \<Rightarrow>
                  (case merged_error g rewritten (store ! err) sh1 of
                     (reported, sh2) \<Rightarrow>
                       (Some (Suc (length store1)), store1 @ [rewritten, reported], sh2))))"














definition hook_replace :: "GraphQLError \<Rightarrow> Shared \<Rightarrow> hook_outcome" where
  "hook_replace clone sh =
     \<lparr>returned = ReturnsNew
        \<lparr>message = ''replaced'', locations = None, path = None, nodes = None, source = None,
         positions = None, originalError = None,
         extensions = Some (length (shared_extensions sh))\<rparr>,
      clone_after = clone,
      shared_after = sh\<lparr>shared_extensions := shared_extensions sh @ [[]]\<rparr>\<rparr>"





section \<open>The request: start and end\<close>

text \<open>
  The argument of \<^verbatim>\<open>requestDidStart\<close> with the members it reads. The clock readings
  (\<^verbatim>\<open>new Date()\<close> in milliseconds and \<^verbatim>\<open>process.hrtime\<close>) are inputs.
\<close>

record Request =
  request_method :: string
  request_headers :: Headers

record StartArgs =
  o_request :: Request
  o_queryString :: "string option"
  o_parsedQuery :: "DocumentNode option"
  o_variables :: "js_record option"
  o_requestContext :: RequestContext

text \<open>What \<^verbatim>\<open>addTrace\<close> is called with.\<close>

record AddTraceArgs =
  arg_operationName :: string
  arg_queryHash :: string
  arg_documentAST :: "DocumentNode option"
  arg_queryString :: string
  arg_trace :: Trace

text \<open>
  The remainder \<^verbatim>\<open>%\<close> of JavaScript has the sign of the dividend.
  \<^verbatim>\<open>
  const totalMillis = +date;
  const millis = totalMillis % 1000;
  return new google.protobuf.Timestamp({
    seconds: (totalMillis - millis) / 1000, nanos: millis * 1e6 });
  \<close>
\<close>

definition js_rem :: "int \<Rightarrow> int \<Rightarrow> int" where
  "js_rem a b = sgn a * (\<bar>a\<bar> mod \<bar>b\<bar>)"

definition dateToTimestamp :: "int \<Rightarrow> Timestamp" where
  "dateToTimestamp totalMillis =
     (let millis = js_rem totalMillis 1000
      in \<lparr>seconds = (totalMillis - millis) div 1000, nanos = millis * 1000000\<rparr>)"

text \<open>Truthiness of an optional boolean (\<^verbatim>\<open>!!x\<close>) and of an optional string.\<close>

definition truthy :: "bool option \<Rightarrow> bool" where
  "truthy b = (b = Some True)"

definition truthy_string :: "string option \<Rightarrow> bool" where
  "truthy_string s = (case s of None \<Rightarrow> False | Some x \<Rightarrow> x \<noteq> [])"

definition string_or :: "string option \<Rightarrow> string \<Rightarrow> string" where
  "string_or s d = (case s of None \<Rightarrow> d | Some x \<Rightarrow> if x = [] then d else x)"

text \<open>
  \<^verbatim>\<open>defaultGenerateClientInfo\<close>: the three \<^verbatim>\<open>apollographql-client-*\<close> headers when one
  of them is set, or else the \<^verbatim>\<open>clientInfo\<close> extension of the request, or else nothing.
\<close>

definition defaultGenerateClientInfo :: "RequestContext \<Rightarrow> ClientInfo option" where
  "defaultGenerateClientInfo requestContext =
     (let get = (\<lambda>name. case http_headers requestContext of
                           None \<Rightarrow> None
                         | Some hs \<Rightarrow> map_of hs name)
      in if http_headers requestContext \<noteq> None
            \<and> (truthy_string (get ''apollographql-client-name'')
               \<or> truthy_string (get ''apollographql-client-version'')
               \<or> truthy_string (get ''apollographql-client-reference-id''))
         then Some \<lparr>ClientInfo.clientName = get ''apollographql-client-name'',
                    clientVersion = get ''apollographql-client-version'',
                    clientReferenceId = get ''apollographql-client-reference-id''\<rparr>
         else if extensions_clientInfo requestContext \<noteq> None
         then extensions_clientInfo requestContext
         else Some \<lparr>ClientInfo.clientName = None, clientVersion = None,
                    clientReferenceId = None\<rparr>)"

text \<open>
  The block of \<^verbatim>\<open>requestDidStart\<close> that records the headers. The two assignments of
  the persisted-query flags stand inside it:
  \<^verbatim>\<open>
  if (this.options.sendHeaders || this.options.privateHeaders != null) {
    if (this.options.sendHeaders) {
      makeHTTPRequestHeaders(this.trace.http, o.request.headers, this.options.sendHeaders);
    } else if (this.options.privateHeaders != null) {
      makeHTTPRequestHeadersLegacy(this.trace.http, o.request.headers,
        this.options.privateHeaders);
    }
    if (o.requestContext.metrics.persistedQueryHit) {
      this.trace.persistedQueryHit = true;
    }
    if (o.requestContext.metrics.persistedQueryRegister) {
      this.trace.persistedQueryRegister = true;
    }
  }
  \<close>
\<close>

definition headers_block :: "EngineReportingOptions \<Rightarrow> StartArgs \<Rightarrow> Trace \<Rightarrow> Trace" where
  "headers_block opts args t =
     (if sendHeaders opts \<noteq> None \<or> privateHeaders opts \<noteq> None
      then
        (let t1 = (case http t of
                     None \<Rightarrow> t
                   | Some h \<Rightarrow>
                       (if sendHeaders opts \<noteq> None
                        then t\<lparr>http := Some (makeHTTPRequestHeaders h
                                 (request_headers (o_request args)) (sendHeaders opts))\<rparr>
                        else (case privateHeaders opts of
                                None \<Rightarrow> t
                              | Some legacy \<Rightarrow>
                                  t\<lparr>http := Some (makeHTTPRequestHeadersLegacy h
                                         (request_headers (o_request args)) legacy)\<rparr>)));
             t2 = (if truthy (Metrics.persistedQueryHit (metrics (o_requestContext args)))
                   then t1\<lparr>persistedQueryHit := True\<rparr> else t1)
         in if truthy (Metrics.persistedQueryRegister (metrics (o_requestContext args)))
            then t2\<lparr>persistedQueryRegister := True\<rparr> else t2)
      else t)"

text \<open>
  \<^verbatim>\<open>
  if (o.variables) {
    if (this.options.sendVariableValues !== undefined || this.options.privateVariables == null) {
      this.trace.details = makeTraceDetails(o.variables, this.options.sendVariableValues,
        o.queryString);
    } else {
      this.trace.details = makeTraceDetailsLegacy(o.variables, this.options.privateVariables);
    }
  }
  \<close>
\<close>

definition details_block :: "EngineReportingOptions \<Rightarrow> StartArgs \<Rightarrow> Trace \<Rightarrow> js_error + Trace" where
  "details_block opts args t =
     (case o_variables args of
        None \<Rightarrow> Inr t
      | Some vars \<Rightarrow>
          (case (if sendVariableValues opts \<noteq> None \<or> privateVariables opts = None
                 then makeTraceDetails vars (sendVariableValues opts) (o_queryString args)
                 else (case privateVariables opts of
                         None \<Rightarrow> makeTraceDetails vars None (o_queryString args)
                       | Some legacy \<Rightarrow> makeTraceDetailsLegacy vars legacy)) of
             Inl e \<Rightarrow> Inl e
           | Inr d \<Rightarrow> Inr (t\<lparr>details := Some d\<rparr>)))"

definition client_block :: "EngineReportingOptions \<Rightarrow> StartArgs \<Rightarrow> Trace \<Rightarrow> Trace" where
  "client_block opts args t =
     (case (case generateClientInfo opts of
              None \<Rightarrow> defaultGenerateClientInfo (o_requestContext args)
            | Some generate \<Rightarrow> generate (o_requestContext args)) of
        None \<Rightarrow> t
      | Some clientInfo \<Rightarrow>
          t\<lparr>clientVersion := string_or (ClientInfo.clientVersion clientInfo) '''',
            clientReferenceId := string_or (ClientInfo.clientReferenceId clientInfo) '''',
            clientName := string_or (ClientInfo.clientName clientInfo) ''''\<rparr>)"

text \<open>
  \<^verbatim>\<open>requestDidStart\<close>, up to the function it returns. That function is
  \<^verbatim>\<open>requestDidEnd\<close> below; it keeps the query hash it read at the start and reads the
  request context again, as the pipeline has left it by then.
\<close>

definition requestDidStart ::
  "StartArgs \<Rightarrow> int \<Rightarrow> int \<times> int \<Rightarrow> Extension \<Rightarrow> js_error + Extension" where
  "requestDidStart args now hrtime this =
     (let t0 = (trace this)\<lparr>Trace.startTime := Some (dateToTimestamp now),
                             http := Some (new_HTTP (request_method (o_request args)))\<rparr>;
          t1 = headers_block (options this) args t0
      in case details_block (options this) args t1 of
           Inl e \<Rightarrow> Inl e
         | Inr t2 \<Rightarrow>
             Inr (this\<lparr>trace := client_block (options this) args t2,
                       startHrTime := Some hrtime,
                       queryString := o_queryString args,
                       documentAST := o_parsedQuery args\<rparr>))"

text \<open>
  \<^verbatim>\<open>
  this.trace.durationNs = durationHrTimeToNanos(process.hrtime(this.startHrTime));
  this.trace.endTime = dateToTimestamp(new Date());
  this.trace.fullQueryCacheHit = !!o.requestContext.metrics.responseCacheHit;
  this.trace.forbiddenOperation = !!o.requestContext.metrics.forbiddenOperation;
  this.trace.registeredOperation = !!o.requestContext.metrics.registeredOperation;
  const operationName = this.explicitOperationName || o.requestContext.operationName || '';
  const documentAST = this.documentAST || o.requestContext.document;
  this.addTrace({ operationName, queryHash, documentAST,
    queryString: this.queryString || '', trace: this.trace });
  \<close>
\<close>

definition requestDidEnd ::
  "string \<Rightarrow> RequestContext \<Rightarrow> int \<Rightarrow> int \<times> int \<Rightarrow> Extension \<Rightarrow> Extension \<times> AddTraceArgs" where
  "requestDidEnd captured_queryHash requestContext now elapsed this =
     (let t = (trace this)
                \<lparr>Trace.endTime := Some (dateToTimestamp now),
                 durationNs := durationHrTimeToNanos elapsed,
                 fullQueryCacheHit := truthy (responseCacheHit (metrics requestContext)),
                 forbiddenOperation := truthy (Metrics.forbiddenOperation (metrics requestContext)),
                 registeredOperation :=
                   truthy (Metrics.registeredOperation (metrics requestContext))\<rparr>;
          this' = this\<lparr>trace := t\<rparr>
      in (this',
          \<lparr>arg_operationName =
             string_or (explicitOperationName this)
               (string_or (operationName requestContext) ''''),
           arg_queryHash = captured_queryHash,
           arg_documentAST = or_else (documentAST this) (document requestContext),
           arg_queryString = string_or (queryString this) '''',
           arg_trace = t\<rparr>))"

text \<open>\<^verbatim>\<open>executionDidStart\<close>: an operation name that was given is kept; the document is.\<close>

definition executionDidStart :: "string option \<Rightarrow> DocumentNode \<Rightarrow> Extension \<Rightarrow> Extension" where
  "executionDidStart given_operationName given_document this =
     (if truthy_string given_operationName
      then this\<lparr>explicitOperationName := given_operationName, documentAST := Some given_document\<rparr>
      else this\<lparr>documentAST := Some given_document\<rparr>)"

text \<open>
  A whole request with no field and no error: the trace that is handed to \<^verbatim>\<open>addTrace\<close>
  when the request starts with \<open>args\<close> and ends with the request context \<open>at_end\<close>.
\<close>

definition completed_trace ::
  "EngineReportingOptions \<Rightarrow> StartArgs \<Rightarrow> RequestContext \<Rightarrow> js_error + Trace" where
  "completed_trace opts args at_end =
     (case requestDidStart args 0 (0, 0) (new_Extension opts) of
        Inl e \<Rightarrow> Inl e
      | Inr this \<Rightarrow>
          Inr (arg_trace (snd (requestDidEnd (queryHash (o_requestContext args)) at_end
                 1 (0, 1000000) this))))"

text \<open>
  A request whose metrics say, from its start to its end, that the persisted query was
  found and that the whole response came from the cache.
\<close>

definition persisted_hit_context :: RequestContext where
  "persisted_hit_context =
     \<lparr>metrics = \<lparr>Metrics.persistedQueryHit = Some True, persistedQueryRegister = Some True,
                  responseCacheHit = Some True, forbiddenOperation = None,
                  registeredOperation = Some False\<rparr>,
      queryHash = ''abc'', operationName = None, document = None, http_headers = None,
      extensions_clientInfo = None\<rparr>"

definition persisted_hit_request :: StartArgs where
  "persisted_hit_request =
     \<lparr>o_request = \<lparr>request_method = ''POST'', request_headers = example_headers\<rparr>,
      o_queryString = Some ''{ a }'', o_parsedQuery = None, o_variables = None,
      o_requestContext = persisted_hit_context\<rparr>"

section \<open>Facts about path keys\<close>

lemma digit_char_is_digit: "d < 10 \<Longrightarrow> is_digit (digit_char d)"
proof -
  assume "d < 10"
  then have "d \<in> {0, 1, 2, 3, 4, 5, 6, 7, 8, 9}" by auto
  then show ?thesis by (auto simp: digit_char_def is_digit_def)
qed

lemma digit_char_inj: "a < 10 \<Longrightarrow> b < 10 \<Longrightarrow> digit_char a = digit_char b \<Longrightarrow> a = b"
proof -
  assume "a < 10" "b < 10" and eq: "digit_char a = digit_char b"
  then have "a \<in> {0, 1, 2, 3, 4, 5, 6, 7, 8, 9}" "b \<in> {0, 1, 2, 3, 4, 5, 6, 7, 8, 9}" by auto
  with eq show ?thesis by (auto simp: digit_char_def)
qed

lemma digit_char_zero: "d < 10 \<Longrightarrow> digit_char d = CHR ''0'' \<Longrightarrow> d = 0"
  using digit_char_inj [of d 0] by (simp add: digit_char_def)

lemma decimal_nonempty: "decimal n \<noteq> []" "[] \<noteq> decimal n"
  by (subst decimal.simps, simp)+

lemma decimal_digits: "list_all is_digit (decimal n)"
proof (induction n rule: decimal.induct)
  case (1 n)
  show ?case
  proof (cases "n < 10")
    case True
    then show ?thesis by (subst decimal.simps) (simp add: digit_char_is_digit)
  next
    case False
    with 1 show ?thesis by (subst decimal.simps) (simp add: digit_char_is_digit)
  qed
qed

lemma decimal_hd: "hd (decimal n) = CHR ''0'' \<Longrightarrow> n = 0"
proof (induction n rule: decimal.induct)
  case (1 n)
  show ?case
  proof (cases "n < 10")
    case True
    with 1(2) show ?thesis by (simp add: decimal.simps [of n] digit_char_zero)
  next
    case False
    with 1(2) have "hd (decimal (n div 10)) = CHR ''0''"
      by (simp add: decimal.simps [of n] decimal_nonempty)
    with 1(1) False have "n div 10 = 0" by simp
    with False show ?thesis by simp
  qed
qed

lemma decimal_is_numeral: "is_numeral (decimal n)"
proof -
  have "hd (decimal n) = CHR ''0'' \<longrightarrow> decimal n = ''0''"
  proof
    assume "hd (decimal n) = CHR ''0''"
    then have "n = 0" by (rule decimal_hd)
    then show "decimal n = ''0''" by (simp add: decimal.simps digit_char_def)
  qed
  then show ?thesis
    by (simp add: is_numeral_def decimal_nonempty decimal_digits)
qed

lemma decimal_dot_free: "CHR ''.'' \<notin> set (decimal n)"
proof
  assume "CHR ''.'' \<in> set (decimal n)"
  with decimal_digits [of n] have "is_digit CHR ''.''" by (simp add: list_all_iff)
  then show False by (simp add: is_digit_def)
qed

lemma decimal_inj: "decimal n = decimal m \<Longrightarrow> n = m"
proof (induction n arbitrary: m rule: decimal.induct)
  case (1 n)
  show ?case
  proof (cases "n < 10")
    case n: True
    show ?thesis
    proof (cases "m < 10")
      case True
      with n 1(2) show ?thesis
        by (simp add: decimal.simps [of n] decimal.simps [of m] digit_char_inj)
    next
      case False
      with n 1(2) show ?thesis
        by (simp add: decimal.simps [of n] decimal.simps [of m] decimal_nonempty)
    qed
  next
    case n: False
    show ?thesis
    proof (cases "m < 10")
      case True
      with n 1(2) show ?thesis
        by (simp add: decimal.simps [of n] decimal.simps [of m] decimal_nonempty)
    next
      case False
      with n 1(2) have eq: "decimal (n div 10) = decimal (m div 10)"
        and d: "digit_char (n mod 10) = digit_char (m mod 10)"
        by (simp_all add: decimal.simps [of n] decimal.simps [of m])
      from n have "10 \<le> n" by simp
      from 1(1) [OF this eq] have "n div 10 = m div 10" .
      moreover from d have "n mod 10 = m mod 10" by (auto intro: digit_char_inj)
      ultimately show ?thesis by (metis div_mult_mod_eq)
    qed
  qed
qed

lemma key_to_string_dot_free: "dot_free_key k \<Longrightarrow> CHR ''.'' \<notin> set (key_to_string k)"
  by (cases k) (simp_all add: decimal_dot_free)

lemma key_to_string_nonempty: "plain_key k \<Longrightarrow> key_to_string k \<noteq> []"
  by (cases k) (simp_all add: decimal_nonempty)

lemma plain_key_dot_free: "plain_key k \<Longrightarrow> dot_free_key k"
  by (cases k) simp_all

lemma key_to_string_inj:
  assumes "plain_key a" "plain_key b" "key_to_string a = key_to_string b"
  shows "a = b"
proof (cases a)
  case fa: (FieldName s)
  show ?thesis
  proof (cases b)
    case (FieldName t)
    with fa assms(3) show ?thesis by simp
  next
    case (Index j)
    with fa assms(1,3) decimal_is_numeral [of j] show ?thesis by simp
  qed
next
  case ia: (Index i)
  show ?thesis
  proof (cases b)
    case (FieldName t)
    with ia assms(2,3) decimal_is_numeral [of i] show ?thesis by simp
  next
    case (Index j)
    with ia assms(3) show ?thesis by (simp add: decimal_inj)
  qed
qed

text \<open>Joining with a separator: the first element is what stands before the first separator.\<close>

lemma join_Cons: "join sep (x # xs) = (if xs = [] then x else x @ sep @ join sep xs)"
  by (cases xs) simp_all

lemma join_snoc: "join sep (xs @ [x]) = (if xs = [] then x else join sep xs @ sep @ x)"
  by (induction sep xs rule: join.induct) (simp_all add: join_Cons)

lemma takeWhile_no_dot:
  "CHR ''.'' \<notin> set x \<Longrightarrow> takeWhile (\<lambda>c. c \<noteq> CHR ''.'') (x @ CHR ''.'' # r) = x"
  by (induction x) auto

lemma takeWhile_all_no_dot: "CHR ''.'' \<notin> set x \<Longrightarrow> takeWhile (\<lambda>c. c \<noteq> CHR ''.'') x = x"
  by (induction x) auto

lemma join_head:
  assumes "CHR ''.'' \<notin> set x"
  shows "takeWhile (\<lambda>c. c \<noteq> CHR ''.'') (join ''.'' (x # xs)) = x"
  using assms by (cases xs) (simp_all add: takeWhile_all_no_dot takeWhile_no_dot)

lemma join_inj:
  assumes "\<forall>x \<in> set xs. x \<noteq> [] \<and> CHR ''.'' \<notin> set x"
    and "\<forall>y \<in> set ys. y \<noteq> [] \<and> CHR ''.'' \<notin> set y"
    and "join ''.'' xs = join ''.'' ys"
  shows "xs = ys"
  using assms
proof (induction xs arbitrary: ys)
  case Nil
  then show ?case by (cases ys) (auto simp: join_Cons split: if_splits)
next
  case (Cons x xs)
  show ?case
  proof (cases ys)
    case Nil
    with Cons.prems show ?thesis by (auto simp: join_Cons split: if_splits)
  next
    case ys: (Cons y ys')
    from Cons.prems have dx: "CHR ''.'' \<notin> set x" and dy: "CHR ''.'' \<notin> set y"
      by (simp_all add: ys)
    from Cons.prems(3) have "takeWhile (\<lambda>c. c \<noteq> CHR ''.'') (join ''.'' (x # xs))
        = takeWhile (\<lambda>c. c \<noteq> CHR ''.'') (join ''.'' (y # ys'))"
      by (simp only: ys)
    with dx dy have xy: "x = y" by (simp add: join_head del: join.simps)
    have "xs = ys'"
    proof (cases "xs = []")
      case True
      with Cons.prems(3) xy have "ys' = [] \<or> y = y @ ''.'' @ join ''.'' ys'"
        by (auto simp: ys join_Cons split: if_splits)
      with True show ?thesis by auto
    next
      case False
      with Cons.prems(3) xy have ne: "ys' \<noteq> []"
        by (auto simp: ys join_Cons split: if_splits)
      with False Cons.prems(3) xy have "join ''.'' xs = join ''.'' ys'"
        by (simp add: ys join_Cons)
      with Cons.IH [of ys'] Cons.prems(1,2) show ?thesis by (simp add: ys)
    qed
    with xy show ?thesis by (simp add: ys)
  qed
qed

lemma flattened_nonempty: "flattened p \<noteq> []" "[] \<noteq> flattened p"
  by (induction p rule: flattened.induct) simp_all

lemma flattened_inj: "flattened p = flattened q \<Longrightarrow> p = q"
proof (induction p arbitrary: q rule: flattened.induct)
  case (1 k)
  then show ?case by (cases q rule: flattened.cases) (simp_all add: flattened_nonempty)
next
  case (2 p k)
  then show ?case
    by (cases q rule: flattened.cases) (auto simp: flattened_nonempty dest: sym)
qed

lemma responsePathAsString_Some_nonempty:
  assumes "plain_path p"
  shows "responsePathAsString (Some p) \<noteq> []"
proof -
  obtain k ks where f: "flattened p = k # ks"
    using flattened_nonempty(1) [of p] by (cases "flattened p") auto
  with assms have "key_to_string k \<noteq> []"
    by (simp add: plain_path_def key_to_string_nonempty)
  with f show ?thesis
    by (simp add: responsePathAsArray_def join_snoc)
qed

lemma responsePathAsString_inj_Some:
  assumes "plain_path p" "plain_path q"
    and "responsePathAsString (Some p) = responsePathAsString (Some q)"
  shows "p = q"
proof -
  let ?xs = "map key_to_string (rev (flattened p))"
  let ?ys = "map key_to_string (rev (flattened q))"
  from assms(1) have px: "\<forall>x \<in> set ?xs. x \<noteq> [] \<and> CHR ''.'' \<notin> set x"
    by (auto simp: plain_path_def list_all_iff key_to_string_nonempty
        key_to_string_dot_free plain_key_dot_free)
  from assms(2) have py: "\<forall>y \<in> set ?ys. y \<noteq> [] \<and> CHR ''.'' \<notin> set y"
    by (auto simp: plain_path_def list_all_iff key_to_string_nonempty
        key_to_string_dot_free plain_key_dot_free)
  from assms(3) have "join ''.'' ?xs = join ''.'' ?ys"
    by (simp add: responsePathAsArray_def)
  with px py have eq: "?xs = ?ys" by (rule join_inj)
  have "inj_on key_to_string (set (rev (flattened p)) \<union> set (rev (flattened q)))"
    using assms(1,2)
    by (auto simp: inj_on_def plain_path_def list_all_iff intro: key_to_string_inj)
  with eq have "rev (flattened p) = rev (flattened q)"
    by (rule inj_on_map_eq_map [THEN iffD1, rotated]) 
  then show ?thesis by (simp add: flattened_inj)
qed

lemma responsePathAsString_leaf:
  "responsePathAsString (Some (ResponsePath None k)) = key_to_string k"
  by (simp add: responsePathAsArray_def)

lemma responsePathAsString_step:
  "responsePathAsString (Some (ResponsePath (Some q) k))
     = responsePathAsString (Some q) @ ''.'' @ key_to_string k"
  by (simp add: responsePathAsArray_def join_snoc flattened_nonempty)

lemma graphql_name_plain:
  assumes "graphql_name s"
  shows "plain_key (FieldName s)"
proof -
  from assms have ne: "s \<noteq> []" and st: "hd s \<in> set name_start"
    and all: "set s \<subseteq> set (name_start @ ''0123456789'')"
    by (simp_all add: graphql_name_def)
  have "CHR ''.'' \<notin> set (name_start @ ''0123456789'')" by (simp add: name_start_def)
  with all have dot: "CHR ''.'' \<notin> set s" by blast
  have "\<not> is_digit (hd s)"
    using st by (auto simp: is_digit_def name_start_def)
  moreover have "is_digit (hd s)" if "is_numeral s"
    using that ne by (cases s) (simp_all add: is_numeral_def)
  ultimately have "\<not> is_numeral s" by blast
  with ne dot show ?thesis by simp
qed

text \<open>
  Claim C8, as amended. The key of a path is the join, from the root to the leaf, of its
  segments with the separator \<open>.\<close>: a one-segment path has its segment as key, a longer
  path the key of its parent, a dot and its last segment. The path
  field \<rightarrow> 2 \<rightarrow> subfield has the key \<open>field.2.subfield\<close> and the root (no path) has the
  empty key. The keying is injective, and no path shares the root's key, over the paths
  whose field names are not empty, hold no dot and are not the numeral of an index. Every
  GraphQL name is such a field name.
\<close>

theorem responsePathAsString_keying:
  "responsePathAsString (Some example_path) = ''field.2.subfield''
   \<and> responsePathAsString None = ''''
   \<and> (\<forall>k. responsePathAsString (Some (ResponsePath None k)) = key_to_string k)
   \<and> (\<forall>q k. responsePathAsString (Some (ResponsePath (Some q) k))
         = responsePathAsString (Some q) @ ''.'' @ key_to_string k)
   \<and> (\<forall>p q. plain_path p \<and> plain_path q
         \<and> responsePathAsString (Some p) = responsePathAsString (Some q) \<longrightarrow> p = q)
   \<and> (\<forall>p. plain_path p \<longrightarrow> responsePathAsString (Some p) \<noteq> responsePathAsString None)
   \<and> (\<forall>s. graphql_name s \<longrightarrow> plain_key (FieldName s))"
proof -
  have "responsePathAsString (Some example_path) = ''field.2.subfield''"
    by (simp add: example_path_def responsePathAsArray_def decimal.simps digit_char_def)
  moreover have "\<forall>p q. plain_path p \<and> plain_path q
      \<and> responsePathAsString (Some p) = responsePathAsString (Some q) \<longrightarrow> p = q"
    using responsePathAsString_inj_Some by blast
  moreover have "\<forall>p. plain_path p \<longrightarrow> responsePathAsString (Some p) \<noteq> responsePathAsString None"
    using responsePathAsString_Some_nonempty by simp
  moreover have "\<forall>s. graphql_name s \<longrightarrow> plain_key (FieldName s)"
    using graphql_name_plain by blast
  ultimately show ?thesis
    using responsePathAsString_leaf responsePathAsString_step by simp
qed

theorem responsePathAsString_keying_witness:
  "plain_path example_path
   \<and> plain_path (ResponsePath None (FieldName ''field''))
   \<and> responsePathAsString (Some example_path) = ''field.2.subfield''
   \<and> responsePathAsString (Some example_path) \<noteq> responsePathAsString None
   \<and> responsePathAsString (Some (ResponsePath None (FieldName ''field''))) = ''field''
   \<and> graphql_name ''subfield''
   \<and> plain_key (FieldName ''subfield'')"
proof -
  have g: "graphql_name ''subfield''"
    by (simp add: graphql_name_def name_start_def)
  have p: "plain_path example_path"
    by (simp add: plain_path_def example_path_def is_numeral_def is_digit_def)
  have q: "plain_path (ResponsePath None (FieldName ''field''))"
    by (simp add: plain_path_def is_numeral_def is_digit_def)
  from p q g responsePathAsString_keying show ?thesis by simp
qed

text \<open>
  The claim as it stands asks only that field names hold no dot. Then the field named
  \<open>2\<close> and the index 2 are two paths with one key.
\<close>

theorem responsePathAsString_collision:
  "dot_free_path (ResponsePath None (FieldName ''2''))
   \<and> dot_free_path (ResponsePath None (Index 2))
   \<and> ResponsePath None (FieldName ''2'') \<noteq> ResponsePath None (Index 2)
   \<and> responsePathAsString (Some (ResponsePath None (FieldName ''2'')))
       = responsePathAsString (Some (ResponsePath None (Index 2)))"
  by (simp add: dot_free_path_def responsePathAsArray_def decimal.simps digit_char_def)

section \<open>Facts about trace details\<close>

lemma recordVariable_stores:
  "recordVariable opts toRecord name d
     = Inr (assign_variable name (stored_for opts toRecord name) d)"
  by (simp add: recordVariable_def stored_for_def split: sum.splits)

lemma forEach_recordVariable:
  "forEach (recordVariable opts toRecord) names d
     = Inr (fold (\<lambda>name. assign_variable name (stored_for opts toRecord name)) names d)"
  by (induction names arbitrary: d) (simp_all add: recordVariable_stores)

lemma map_of_fold_assign:
  "map_of (variablesJson (fold (\<lambda>name. assign_variable name (f name)) names d)) n
     = (if n \<in> set names then Some (f n) else map_of (variablesJson d) n)"
  by (induction names arbitrary: d) (auto simp: assign_variable_def update_conv')

lemma keys_fold_assign:
  "fst ` set (variablesJson (fold (\<lambda>name. assign_variable name (f name)) names d))
     = set names \<union> fst ` set (variablesJson d)"
  by (induction names arbitrary: d) (auto simp: assign_variable_def dom_update)


text \<open>The whole of \<^verbatim>\<open>makeTraceDetails\<close>: it returns, and what it holds for each name.\<close>

lemma makeTraceDetails_returns:
  "\<exists>d. makeTraceDetails variables opts q = Inr d"
  by (simp add: makeTraceDetails_def Let_def forEach_recordVariable)

lemma makeTraceDetails_lookup:
  assumes "makeTraceDetails variables opts q = Inr d"
  shows "map_of (variablesJson d) name =
     (if name \<in> fst ` set (variablesToRecord variables opts q)
      then Some (stored_for opts (variablesToRecord variables opts q) name) else None)"
proof -
  from assms have "d = fold (\<lambda>name. assign_variable name
      (stored_for opts (variablesToRecord variables opts q) name))
      (map fst (variablesToRecord variables opts q)) new_Details"
    by (simp add: makeTraceDetails_def Let_def forEach_recordVariable)
  then show ?thesis
    by (simp add: map_of_fold_assign new_Details_def)
qed

lemma makeTraceDetails_keys:
  assumes "makeTraceDetails variables opts q = Inr d"
  shows "fst ` set (variablesJson d) = fst ` set (variablesToRecord variables opts q)"
proof -
  from assms have "d = fold (\<lambda>name. assign_variable name
      (stored_for opts (variablesToRecord variables opts q) name))
      (map fst (variablesToRecord variables opts q)) new_Details"
    by (simp add: makeTraceDetails_def Let_def forEach_recordVariable)
  then show ?thesis
    by (simp add: keys_fold_assign new_Details_def)
qed



text \<open>
  The keys that \<^verbatim>\<open>cleanModifiedVariables\<close> returns are the original keys, but for
  \<^verbatim>\<open>__proto__\<close>; each holds what reading the modified object by that name gives.
\<close>

lemma keys_fold_set_property:
  "fst ` set (fold (\<lambda>name acc. set_property acc name (g name)) names acc0)
     = (set names - {''__proto__''}) \<union> fst ` set acc0"
  by (induction names arbitrary: acc0) (auto simp: set_property_def dom_update)

lemma map_of_fold_set_property:
  "map_of (fold (\<lambda>name acc. set_property acc name (g name)) names acc0) n
     = (if n \<in> set names \<and> n \<noteq> ''__proto__'' then Some (g n) else map_of acc0 n)"
  by (induction names arbitrary: acc0) (auto simp: set_property_def update_conv')

lemma cleanModifiedVariables_keys:
  "fst ` set (cleanModifiedVariables originalKeys modified) = set originalKeys - {''__proto__''}"
  by (simp add: cleanModifiedVariables_def keys_fold_set_property)

lemma cleanModifiedVariables_get:
  "get_property (cleanModifiedVariables originalKeys modified) name
     = (if name \<in> set originalKeys \<and> name \<noteq> ''__proto__''
        then get_property modified name else inherited_property name)"
  by (simp add: cleanModifiedVariables_def get_property_def map_of_fold_set_property)


lemma variablesToRecord_modifier_keys:
  "fst ` set (variablesToRecord variables (Some (ValueModifier f)) q)
     = fst ` set variables - {''__proto__''}"
  by (simp add: cleanModifiedVariables_keys)

lemma get_property_missing:
  "name \<notin> fst ` set obj \<Longrightarrow> get_property obj name = inherited_property name"
  by (simp add: get_property_def map_of_eq_None_iff [THEN iffD2])











lemma omitted_key_read:
  assumes "name \<in> fst ` set variables" and "name \<noteq> ''__proto__''"
    and "name \<notin> fst ` set (f variables q)"
  shows "get_property (variablesToRecord variables (Some (ValueModifier f)) q) name
           = (if name \<in> set Object_prototype_methods then JFunction else JUndefined)"
  using assms
  by (simp add: cleanModifiedVariables_get get_property_missing inherited_property_def)

lemma omitted_key_stored:
  assumes "name \<in> fst ` set variables" and "name \<noteq> ''__proto__''"
    and "name \<notin> fst ` set (f variables q)"
  shows "stored_for (Some (ValueModifier f))
           (variablesToRecord variables (Some (ValueModifier f)) q) name
         = (if name \<in> set Object_prototype_methods then None else Some '''')"
  unfolding stored_for_def omitted_key_read [of name variables f q, OF assms] by simp

text \<open>
  Claim C7, as amended. With a value modifier configured that returns a plain object, the
  key set of the recorded details is the key set of the original variables less the name
  \<^verbatim>\<open>__proto__\<close>, whatever keys the modifier returned: a key the modifier adds has no
  entry, and a key the modifier leaves out still has an entry. That entry holds the empty
  string, or it holds \<^verbatim>\<open>undefined\<close> when the key is the name of a method of
  \<^verbatim>\<open>Object.prototype\<close>, which \<^verbatim>\<open>modifiedVariables[name]\<close> finds on the prototype
  chain.
\<close>

theorem valueModifier_keeps_original_keys:
  "\<forall>variables f q. \<exists>d.
     makeTraceDetails variables (Some (ValueModifier f)) q = Inr d
     \<and> fst ` set (variablesJson d) = fst ` set variables - {''__proto__''}
     \<and> (\<forall>name. name \<notin> fst ` set variables \<longrightarrow> map_of (variablesJson d) name = None)
     \<and> (\<forall>name. name \<in> fst ` set variables \<and> name \<noteq> ''__proto__''
             \<and> name \<notin> fst ` set (f variables q)
           \<longrightarrow> map_of (variablesJson d) name
                 = Some (if name \<in> set Object_prototype_methods then None else Some ''''))"
proof (intro allI)
  fix variables f q
  obtain d where d: "makeTraceDetails variables (Some (ValueModifier f)) q = Inr d"
    using makeTraceDetails_returns by blast
  have keys: "fst ` set (variablesJson d) = fst ` set variables - {''__proto__''}"
    using makeTraceDetails_keys [OF d] by (simp only: variablesToRecord_modifier_keys)
  have added: "\<forall>name. name \<notin> fst ` set variables \<longrightarrow> map_of (variablesJson d) name = None"
    using keys by (auto simp: map_of_eq_None_iff)
  have omitted: "\<forall>name. name \<in> fst ` set variables \<and> name \<noteq> ''__proto__''
        \<and> name \<notin> fst ` set (f variables q)
      \<longrightarrow> map_of (variablesJson d) name
            = Some (if name \<in> set Object_prototype_methods then None else Some '''')"
  proof (intro allI impI)
    fix name
    assume a: "name \<in> fst ` set variables \<and> name \<noteq> ''__proto__''
        \<and> name \<notin> fst ` set (f variables q)"
    then have st: "stored_for (Some (ValueModifier f))
        (variablesToRecord variables (Some (ValueModifier f)) q) name
        = (if name \<in> set Object_prototype_methods then None else Some '''')"
      using omitted_key_stored [of name variables f q] by blast
    from a have "name \<in> fst ` set (variablesToRecord variables (Some (ValueModifier f)) q)"
      by (simp only: variablesToRecord_modifier_keys) simp
    with makeTraceDetails_lookup [OF d, of name]
    have "map_of (variablesJson d) name = Some (stored_for (Some (ValueModifier f))
        (variablesToRecord variables (Some (ValueModifier f)) q) name)"
      by (simp only: if_True)
    with st show "map_of (variablesJson d) name
        = Some (if name \<in> set Object_prototype_methods then None else Some '''')"
      by (simp only:)
  qed
  from d keys added omitted
  show "\<exists>d. makeTraceDetails variables (Some (ValueModifier f)) q = Inr d
      \<and> fst ` set (variablesJson d) = fst ` set variables - {''__proto__''}
      \<and> (\<forall>name. name \<notin> fst ` set variables \<longrightarrow> map_of (variablesJson d) name = None)
      \<and> (\<forall>name. name \<in> fst ` set variables \<and> name \<noteq> ''__proto__''
              \<and> name \<notin> fst ` set (f variables q)
            \<longrightarrow> map_of (variablesJson d) name
                  = Some (if name \<in> set Object_prototype_methods then None else Some ''''))"
    by blast
qed

theorem valueModifier_keeps_original_keys_witness:
  "''added'' \<notin> fst ` set example_variables
   \<and> ''added'' \<in> fst ` set (add_a_key example_variables None)
   \<and> (\<exists>d. makeTraceDetails example_variables (Some (ValueModifier add_a_key)) None = Inr d
         \<and> fst ` set (variablesJson d) = {''a'', ''b''}
         \<and> map_of (variablesJson d) ''added'' = None)
   \<and> (''a'' \<in> fst ` set example_variables \<and> ''a'' \<noteq> ''__proto__''
       \<and> ''a'' \<notin> fst ` set (omit_everything example_variables None))
   \<and> (\<exists>d. makeTraceDetails example_variables (Some (ValueModifier omit_everything)) None = Inr d
         \<and> fst ` set (variablesJson d) = {''a'', ''b''}
         \<and> map_of (variablesJson d) ''a'' = Some (Some ''''))
   \<and> (''toString'' \<in> fst ` set method_named_variables \<and> ''toString'' \<noteq> ''__proto__''
       \<and> ''toString'' \<notin> fst ` set (omit_everything method_named_variables None))
   \<and> (\<exists>d. makeTraceDetails method_named_variables (Some (ValueModifier omit_everything)) None
            = Inr d
         \<and> fst ` set (variablesJson d) = {''toString'', ''id''}
         \<and> map_of (variablesJson d) ''toString'' = Some None)"
proof -
  have h1: "''added'' \<notin> fst ` set example_variables"
    and h2: "''added'' \<in> fst ` set (add_a_key example_variables None)"
    and h3: "''a'' \<in> fst ` set example_variables \<and> ''a'' \<noteq> ''__proto__''
      \<and> ''a'' \<notin> fst ` set (omit_everything example_variables None)"
    and h4: "''toString'' \<in> fst ` set method_named_variables \<and> ''toString'' \<noteq> ''__proto__''
      \<and> ''toString'' \<notin> fst ` set (omit_everything method_named_variables None)"
    by (simp_all add: example_variables_def add_a_key_def omit_everything_def
        method_named_variables_def)
  have k1: "fst ` set example_variables - {''__proto__''} = {''a'', ''b''}"
    by (auto simp: example_variables_def)
  have k2: "fst ` set method_named_variables - {''__proto__''} = {''toString'', ''id''}"
    by (auto simp: method_named_variables_def)
  have m: "''a'' \<notin> set Object_prototype_methods" "''toString'' \<in> set Object_prototype_methods"
    by (simp_all add: Object_prototype_methods_def)
  from valueModifier_keeps_original_keys [rule_format, of example_variables add_a_key None]
  obtain d where d: "makeTraceDetails example_variables (Some (ValueModifier add_a_key)) None = Inr d"
    and k: "fst ` set (variablesJson d) = fst ` set example_variables - {''__proto__''}"
    and n: "\<forall>name. name \<notin> fst ` set example_variables \<longrightarrow> map_of (variablesJson d) name = None"
    by (elim exE conjE)
  from n h1 have "map_of (variablesJson d) ''added'' = None" by simp
  with d k k1 have a: "\<exists>d. makeTraceDetails example_variables (Some (ValueModifier add_a_key)) None = Inr d
      \<and> fst ` set (variablesJson d) = {''a'', ''b''}
      \<and> map_of (variablesJson d) ''added'' = None"
    by (intro exI [of _ d] conjI) simp_all
  from valueModifier_keeps_original_keys [rule_format, of example_variables omit_everything None]
  obtain d' where d': "makeTraceDetails example_variables (Some (ValueModifier omit_everything)) None = Inr d'"
    and k': "fst ` set (variablesJson d') = fst ` set example_variables - {''__proto__''}"
    and o: "\<forall>name. name \<in> fst ` set example_variables \<and> name \<noteq> ''__proto__''
        \<and> name \<notin> fst ` set (omit_everything example_variables None)
        \<longrightarrow> map_of (variablesJson d') name
              = Some (if name \<in> set Object_prototype_methods then None else Some '''')"
    by (elim exE conjE)
  from o [rule_format, OF h3] m have "map_of (variablesJson d') ''a'' = Some (Some '''')" by simp
  with d' k' k1 have b: "\<exists>d. makeTraceDetails example_variables (Some (ValueModifier omit_everything)) None = Inr d
      \<and> fst ` set (variablesJson d) = {''a'', ''b''}
      \<and> map_of (variablesJson d) ''a'' = Some (Some '''')"
    by (intro exI [of _ d'] conjI) simp_all
  from valueModifier_keeps_original_keys [rule_format, of method_named_variables omit_everything None]
  obtain d2 where d2: "makeTraceDetails method_named_variables (Some (ValueModifier omit_everything)) None = Inr d2"
    and k2': "fst ` set (variablesJson d2) = fst ` set method_named_variables - {''__proto__''}"
    and o2: "\<forall>name. name \<in> fst ` set method_named_variables \<and> name \<noteq> ''__proto__''
        \<and> name \<notin> fst ` set (omit_everything method_named_variables None)
        \<longrightarrow> map_of (variablesJson d2) name
              = Some (if name \<in> set Object_prototype_methods then None else Some '''')"
    by (elim exE conjE)
  from o2 [rule_format, OF h4] m have "map_of (variablesJson d2) ''toString'' = Some None" by simp
  with d2 k2' k2 have c: "\<exists>d. makeTraceDetails method_named_variables (Some (ValueModifier omit_everything)) None
        = Inr d
      \<and> fst ` set (variablesJson d) = {''toString'', ''id''}
      \<and> map_of (variablesJson d) ''toString'' = Some None"
    by (intro exI [of _ d2] conjI) simp_all
  from h1 h2 a h3 b h4 c show ?thesis by iprover
qed

text \<open>
  The claim as it stands has the recorded keys be the original keys that the modifier
  returned. A modifier that returns no key at all still leaves both variables of the
  example recorded.
\<close>

theorem valueModifier_omitted_keys_recorded:
  "makeTraceDetails example_variables (Some (ValueModifier omit_everything)) None
     = Inr \<lparr>variablesJson = [(''a'', Some ''''), (''b'', Some '''')]\<rparr>
   \<and> recorded_names (makeTraceDetails example_variables (Some (ValueModifier omit_everything)) None)
       \<noteq> fst ` set example_variables \<inter> fst ` set (omit_everything example_variables None)"
  by (simp add: makeTraceDetails_def example_variables_def omit_everything_def
      recordVariable_def new_Details_def assign_variable_def get_property_def
      set_property_def inherited_property_def Object_prototype_methods_def
      cleanModifiedVariables_def recorded_names_def)




section \<open>Facts about the recorded headers\<close>




lemma toLowerCase_example: "toLowerCase ''X-Api-Key'' = ''x-api-key''"
  by (simp add: toLowerCase_def lower_char_def)






section \<open>Facts about the tree of nodes\<close>

lemma key_length_prev:
  "responsePathAsString (Some rp) \<noteq> '''' \<Longrightarrow>
   length (responsePathAsString (prev rp)) < length (responsePathAsString (Some rp))"
  by (cases rp rule: flattened.cases)
     (simp_all add: responsePathAsString_leaf responsePathAsString_step
        del: responsePathAsString.simps(2))

lemma key_length_Some:
  "prev rp = Some pp \<Longrightarrow>
   length (responsePathAsString (Some pp)) < length (responsePathAsString (Some rp))"
  by (cases rp rule: flattened.cases)
     (simp_all add: responsePathAsString_step del: responsePathAsString.simps(2))

lemma reachable_mono:
  assumes "reachable h n" and "heap_le h h'"
  shows "reachable h' n"
  using assms
proof (induction rule: reachable.induct)
  case root
  then show ?case by (auto simp: heap_le_def intro: reachable.root)
next
  case (child p c)
  then have "reachable h' p" "p < length h'" "c \<in> set (child (h' ! p))"
    by (auto simp: heap_le_def)
  then show ?case by (rule reachable.child)
qed

lemma heap_le_append: "heap_le h (h @ [x])"
  by (simp add: heap_le_def nth_append)

lemma heap_le_push:
  "heap_le h (h[p := (h ! p)\<lparr>child := child (h ! p) @ [c]\<rparr>])"
proof -
  have "set (child (h ! i)) \<subseteq> set (child (h[p := (h ! p)\<lparr>child := child (h ! p) @ [c]\<rparr>] ! i))"
    if "i < length h" for i
    using that by (cases "i = p") auto
  then show ?thesis by (simp add: heap_le_def)
qed

lemma heap_le_same_children: "map child h = map child h' \<Longrightarrow> heap_le h h'"
proof -
  assume eq: "map child h = map child h'"
  then have len: "length h = length h'" by (rule map_eq_imp_length_eq)
  have "\<forall>i < length h. child (h ! i) = child (h' ! i)"
  proof (intro allI impI)
    fix i assume "i < length h"
    with len have "map child h ! i = child (h ! i)" "map child h' ! i = child (h' ! i)" by simp_all
    with eq show "child (h ! i) = child (h' ! i)" by simp
  qed
  with len show ?thesis by (simp add: heap_le_def)
qed

lemma all_children_append: "all_children (h @ [x]) = all_children h @ child x"
  by (simp add: all_children_def)

lemma all_children_push:
  assumes "p < length h"
  shows "set (all_children (h[p := (h ! p)\<lparr>child := child (h ! p) @ [c]\<rparr>])) = insert c (set (all_children h))"
    and "distinct (all_children h) \<Longrightarrow> c \<notin> set (all_children h) \<Longrightarrow>
         distinct (all_children (h[p := (h ! p)\<lparr>child := child (h ! p) @ [c]\<rparr>]))"
proof -
  let ?x = "(h ! p)\<lparr>child := child (h ! p) @ [c]\<rparr>"
  from assms have h: "h = take p h @ [h ! p] @ drop (Suc p) h"
    by (simp add: id_take_nth_drop)
  from assms have h': "h[p := ?x] = take p h @ [?x] @ drop (Suc p) h"
    by (simp add: upd_conv_take_nth_drop)
  have a: "all_children h = all_children (take p h) @ child (h ! p) @ all_children (drop (Suc p) h)"
    by (subst h) (simp add: all_children_def)
  have b: "all_children (h[p := ?x])
      = all_children (take p h) @ (child (h ! p) @ [c]) @ all_children (drop (Suc p) h)"
    by (subst h') (simp add: all_children_def)
  show "set (all_children (h[p := ?x])) = insert c (set (all_children h))"
    by (simp only: a b) auto
  show "distinct (all_children h) \<Longrightarrow> c \<notin> set (all_children h) \<Longrightarrow>
       distinct (all_children (h[p := ?x]))"
    by (simp only: a b) auto
qed

lemma child_with_id [simp]: "child (with_id k new_Node) = []"
  by (cases k) (simp_all add: new_Node_def)

lemma tree_inv_alloc:
  assumes inv: "tree_inv U this" and ne: "responsePathAsString (Some rp) \<noteq> ''''"
  shows "tree_inv (insert (length (heap this)) U)
           (this\<lparr>heap := heap this @ [with_id (key rp) new_Node],
                 nodes := AList.update (responsePathAsString (Some rp)) (length (heap this))
                            (nodes this)\<rparr>)"
proof -
  let ?c = "length (heap this)"
  let ?h = "heap this @ [with_id (key rp) new_Node]"
  from inv have pos: "0 < ?c" and rt: "root (trace this) = 0"
    and reg0: "map_of (nodes this) '''' = Some 0"
    and valid: "\<forall>k n. map_of (nodes this) k = Some n \<longrightarrow> n < ?c"
    and dist: "distinct (all_children (heap this))"
    and ch: "set (all_children (heap this)) = {1 ..< ?c} - U"
    and sub: "U \<subseteq> {1 ..< ?c}"
    and reach: "\<forall>n < ?c. n \<notin> U \<longrightarrow> reachable (heap this) n"
    by (simp_all add: tree_inv_def)
  have 1: "map_of (AList.update (responsePathAsString (Some rp)) ?c (nodes this)) '''' = Some 0"
    using reg0 ne by (simp add: update_conv' del: responsePathAsString.simps)
  have 2: "\<forall>k n. map_of (AList.update (responsePathAsString (Some rp)) ?c (nodes this)) k = Some n
      \<longrightarrow> n < length ?h"
    using valid by (auto simp: update_conv' less_Suc_eq simp del: responsePathAsString.simps)
  have 3: "distinct (all_children ?h)"
    using dist by (simp add: all_children_append)
  have 4: "set (all_children ?h) = {1 ..< length ?h} - insert ?c U"
    using ch pos by (auto simp: all_children_append)
  have 5: "insert ?c U \<subseteq> {1 ..< length ?h}"
  proof -
    from pos have "1 \<le> ?c" by linarith
    with sub show ?thesis by auto
  qed
  have 6: "\<forall>n < length ?h. n \<notin> insert ?c U \<longrightarrow> reachable ?h n"
  proof (intro allI impI)
    fix n assume "n < length ?h" "n \<notin> insert ?c U"
    then have "n < ?c" "n \<notin> U" by auto
    with reach have "reachable (heap this) n" by simp
    then show "reachable ?h n" by (rule reachable_mono) (rule heap_le_append)
  qed
  from pos rt 1 2 3 4 5 6 show ?thesis
    by (simp add: tree_inv_def del: responsePathAsString.simps)
qed

lemma tree_inv_push:
  assumes inv: "tree_inv (insert c U) this" and par: "par < length (heap this)"
    and parU: "par \<notin> insert c U" and cU: "c \<notin> U"
  shows "tree_inv U (push_child par c this)"
proof -
  let ?n = "length (heap this)"
  let ?h = "(heap this)[par := (heap this ! par)\<lparr>child := child (heap this ! par) @ [c]\<rparr>]"
  from inv have pos: "0 < ?n" and rt: "root (trace this) = 0"
    and reg0: "map_of (nodes this) '''' = Some 0"
    and valid: "\<forall>k n. map_of (nodes this) k = Some n \<longrightarrow> n < ?n"
    and dist: "distinct (all_children (heap this))"
    and ch: "set (all_children (heap this)) = {1 ..< ?n} - insert c U"
    and sub: "insert c U \<subseteq> {1 ..< ?n}"
    and reach: "\<forall>n < ?n. n \<notin> insert c U \<longrightarrow> reachable (heap this) n"
    by (simp_all add: tree_inv_def)
  from ch have cnot: "c \<notin> set (all_children (heap this))" by simp
  have 3: "distinct (all_children ?h)"
    using all_children_push(2) [OF par dist cnot] .
  have 4: "set (all_children ?h) = {1 ..< ?n} - U"
    using all_children_push(1) [OF par, of c] ch sub cU by auto
  have 5: "U \<subseteq> {1 ..< ?n}" using sub by simp
  have le: "heap_le (heap this) ?h" by (rule heap_le_push)
  from reach par parU have "reachable (heap this) par" by simp
  then have rp: "reachable ?h par" using le by (rule reachable_mono)
  have "c \<in> set (child (?h ! par))" using par by simp
  with rp par have rc: "reachable ?h c" by (auto intro: reachable.child)
  have 6: "\<forall>n < ?n. n \<notin> U \<longrightarrow> reachable ?h n"
  proof (intro allI impI)
    fix n assume n: "n < ?n" "n \<notin> U"
    show "reachable ?h n"
    proof (cases "n = c")
      case True
      with rc show ?thesis by simp
    next
      case False
      with n reach have "reachable (heap this) n" by simp
      then show ?thesis using le by (rule reachable_mono)
    qed
  qed
  from pos rt reg0 valid 3 4 5 6 show ?thesis
    by (simp add: tree_inv_def push_child_def)
qed

lemma newNode_tree:
  "\<forall>U. tree_inv U this \<and> responsePathAsString (Some rp) \<noteq> ''''
        \<and> pending_ok (length (responsePathAsString (Some rp))) U this
     \<longrightarrow> (\<exists>n this'. newNode rp this = Inr (n, this')
           \<and> tree_inv U this' \<and> n = length (heap this) \<and> n < length (heap this') \<and> n \<notin> U
           \<and> trace this' = trace this
           \<and> map_of (nodes this') (responsePathAsString (Some rp)) = Some n
           \<and> (\<forall>k. length (responsePathAsString (Some rp)) < length k
                 \<longrightarrow> map_of (nodes this') k = map_of (nodes this) k)
           \<and> (\<exists>par. map_of (nodes this') (responsePathAsString (prev rp)) = Some par
                 \<and> par < length (heap this') \<and> n \<in> set (child (heap this' ! par))))"
  and ensureParentNode_tree:
  "\<forall>U. tree_inv U this \<and> pending_ok (length (responsePathAsString (prev rp))) U this
     \<longrightarrow> (\<exists>n this'. ensureParentNode rp this = Inr (n, this')
           \<and> tree_inv U this' \<and> n < length (heap this') \<and> n \<notin> U
           \<and> length (heap this) \<le> length (heap this')
           \<and> trace this' = trace this
           \<and> map_of (nodes this') (responsePathAsString (prev rp)) = Some n
           \<and> (\<forall>k. length (responsePathAsString (prev rp)) < length k
                 \<longrightarrow> map_of (nodes this') k = map_of (nodes this) k))"
proof (induction rp this and rp this rule: newNode_ensureParentNode.induct)
  case (1 rp this)
  let ?K = "responsePathAsString (Some rp)"
  let ?P = "responsePathAsString (prev rp)"
  let ?c = "length (heap this)"
  let ?this1 = "this\<lparr>heap := heap this @ [with_id (key rp) new_Node],
                      nodes := AList.update ?K ?c (nodes this)\<rparr>"
  show ?case
  proof (intro allI impI)
    fix U
    assume a: "tree_inv U this \<and> ?K \<noteq> '''' \<and> pending_ok (length ?K) U this"
    then have inv: "tree_inv U this" and ne: "?K \<noteq> ''''" and pend: "pending_ok (length ?K) U this"
      by simp_all
    from inv have valid: "\<forall>k n. map_of (nodes this) k = Some n \<longrightarrow> n < ?c"
      and sub: "U \<subseteq> {1 ..< ?c}"
      by (simp_all add: tree_inv_def)
    from sub have cU: "?c \<notin> U" by auto
    have lt: "length ?P < length ?K" using ne by (rule key_length_prev)
    have inv1: "tree_inv (insert ?c U) ?this1" using inv ne by (rule tree_inv_alloc)
    have pend1: "pending_ok (length ?P) (insert ?c U) ?this1"
      unfolding pending_ok_def
    proof (intro allI impI)
      fix k :: string and n :: nat
      assume h: "map_of (nodes ?this1) k = Some n \<and> n \<in> insert ?c U"
      show "length ?P < length k"
      proof (cases "k = ?K")
        case True
        with lt show ?thesis by simp
      next
        case False
        with h have m: "map_of (nodes this) k = Some n"
          by (simp add: update_conv' del: responsePathAsString.simps)
        with valid have "n < ?c" by blast
        with h have "n \<in> U" by auto
        with m pend have "length ?K < length k" by (auto simp: pending_ok_def)
        with lt show ?thesis by simp
      qed
    qed
    from "1.IH" [OF refl refl, rule_format, of "insert ?c U"] inv1 pend1
    obtain par this2 where e: "ensureParentNode rp ?this1 = Inr (par, this2)"
      and inv2: "tree_inv (insert ?c U) this2"
      and par: "par < length (heap this2)" and parU: "par \<notin> insert ?c U"
      and len: "length (heap ?this1) \<le> length (heap this2)"
      and tr: "trace this2 = trace ?this1"
      and regP: "map_of (nodes this2) ?P = Some par"
      and frame: "\<forall>k. length ?P < length k \<longrightarrow> map_of (nodes this2) k = map_of (nodes ?this1) k"
      by blast
    let ?this3 = "push_child par ?c this2"
    have new: "newNode rp this = Inr (?c, ?this3)"
      using e by (simp add: newNode.simps [of rp this] Let_def del: responsePathAsString.simps)
    have inv3: "tree_inv U ?this3" using inv2 par parU cU by (rule tree_inv_push)
    have c_lt: "?c < length (heap ?this3)" using len by (simp add: push_child_def)
    have tr3: "trace ?this3 = trace this" using tr by (simp add: push_child_def)
    have regK: "map_of (nodes ?this3) ?K = Some ?c"
      using frame lt by (simp add: push_child_def update_conv' del: responsePathAsString.simps)
    have frame3: "\<forall>k. length ?K < length k \<longrightarrow> map_of (nodes ?this3) k = map_of (nodes this) k"
    proof (intro allI impI)
      fix k :: string assume k: "length ?K < length k"
      with lt have "length ?P < length k" by simp
      with frame have "map_of (nodes this2) k = map_of (nodes ?this1) k" by simp
      moreover from k have "k \<noteq> ?K" by auto
      ultimately show "map_of (nodes ?this3) k = map_of (nodes this) k"
        by (simp add: push_child_def update_conv' del: responsePathAsString.simps)
    qed
    have parent: "\<exists>p. map_of (nodes ?this3) ?P = Some p \<and> p < length (heap ?this3)
        \<and> ?c \<in> set (child (heap ?this3 ! p))"
      using regP par by (intro exI [of _ par]) (simp add: push_child_def)
    from new inv3 c_lt cU tr3 regK frame3 parent
    show "\<exists>n this'. newNode rp this = Inr (n, this')
        \<and> tree_inv U this' \<and> n = ?c \<and> n < length (heap this') \<and> n \<notin> U
        \<and> trace this' = trace this
        \<and> map_of (nodes this') ?K = Some n
        \<and> (\<forall>k. length ?K < length k \<longrightarrow> map_of (nodes this') k = map_of (nodes this) k)
        \<and> (\<exists>par. map_of (nodes this') ?P = Some par
              \<and> par < length (heap this') \<and> n \<in> set (child (heap this' ! par)))"
      by blast
  qed
next
  case (2 rp this)
  let ?P = "responsePathAsString (prev rp)"
  show ?case
  proof (intro allI impI)
    fix U
    assume a: "tree_inv U this \<and> pending_ok (length ?P) U this"
    then have inv: "tree_inv U this" and pend: "pending_ok (length ?P) U this" by simp_all
    from inv have valid: "\<forall>k n. map_of (nodes this) k = Some n \<longrightarrow> n < length (heap this)"
      and reg0: "map_of (nodes this) '''' = Some 0"
      by (simp_all add: tree_inv_def)
    show "\<exists>n this'. ensureParentNode rp this = Inr (n, this')
        \<and> tree_inv U this' \<and> n < length (heap this') \<and> n \<notin> U
        \<and> length (heap this) \<le> length (heap this')
        \<and> trace this' = trace this
        \<and> map_of (nodes this') ?P = Some n
        \<and> (\<forall>k. length ?P < length k \<longrightarrow> map_of (nodes this') k = map_of (nodes this) k)"
    proof (cases "map_of (nodes this) ?P")
      case (Some par)
      then have e: "ensureParentNode rp this = Inr (par, this)"
        by (simp add: ensureParentNode.simps [of rp this] Let_def del: responsePathAsString.simps)
      from Some valid have "par < length (heap this)" by blast
      moreover from Some pend have "par \<notin> U" by (auto simp: pending_ok_def)
      ultimately show ?thesis using e inv Some by simp
    next
      case None
      have "prev rp \<noteq> None"
      proof
        assume "prev rp = None"
        with None reg0 show False by simp
      qed
      then obtain pp where pp: "prev rp = Some pp" by auto
      with None reg0 have ne: "responsePathAsString (Some pp) \<noteq> ''''" by auto
      from None pp have e: "ensureParentNode rp this = newNode pp this"
        by (simp add: ensureParentNode.simps [of rp this] Let_def del: responsePathAsString.simps)
      from None pp have n': "map_of (nodes this) (responsePathAsString (prev rp)) = None" by simp
      from "2.IH" [OF refl n' pp, rule_format, of U] inv ne pend pp
      obtain n this' where "newNode pp this = Inr (n, this')"
        and "tree_inv U this'" and "n = length (heap this)" and "n < length (heap this')"
        and "n \<notin> U" and "trace this' = trace this"
        and "map_of (nodes this') (responsePathAsString (Some pp)) = Some n"
        and "\<forall>k. length (responsePathAsString (Some pp)) < length k
              \<longrightarrow> map_of (nodes this') k = map_of (nodes this) k"
        by auto
      with e pp show ?thesis by (simp del: responsePathAsString.simps)
    qed
  qed
qed

lemma distinct_count_list_1: "distinct xs \<Longrightarrow> x \<in> set xs \<Longrightarrow> count_list xs x = 1"
  by (induction xs) auto

lemma tree_inv_connected:
  assumes "tree_inv {} this"
  shows "connected_tree this"
proof -
  from assms have pos: "0 < length (heap this)" and rt: "root (trace this) = 0"
    and reg0: "map_of (nodes this) '''' = Some 0"
    and dist: "distinct (all_children (heap this))"
    and ch: "set (all_children (heap this)) = {1 ..< length (heap this)}"
    and reach: "\<forall>n < length (heap this). reachable (heap this) n"
    by (simp_all add: tree_inv_def)
  have "\<forall>n < length (heap this). 0 < n \<longrightarrow> count_list (all_children (heap this)) n = 1"
  proof (intro allI impI)
    fix n assume "n < length (heap this)" "0 < n"
    with ch have "n \<in> set (all_children (heap this))" by auto
    with dist show "count_list (all_children (heap this)) n = 1"
      by (rule distinct_count_list_1)
  qed
  with pos rt reg0 ch reach show ?thesis by (simp add: connected_tree_def)
qed

lemma tree_inv_new_Extension: "tree_inv {} (new_Extension opts)"
proof -
  have "reachable [new_Node] 0" by (rule reachable.root) simp
  then show ?thesis
    by (simp add: tree_inv_def new_Extension_def new_Trace_def all_children_def new_Node_def)
qed

lemma map_child_update_fields:
  assumes "child x = child (h ! n)"
  shows "map child (h[n := x]) = map child h"
proof (cases "n < length h")
  case True
  then show ?thesis using assms by (simp add: map_update list_update_same_conv)
next
  case False
  then have "h[n := x] = h" by (simp add: list_update_beyond)
  then show ?thesis by simp
qed

lemma tree_inv_same_children:
  assumes inv: "tree_inv U this" and eq: "map child h' = map child (heap this)"
  shows "tree_inv U (this\<lparr>heap := h'\<rparr>)"
proof -
  from eq have len: "length h' = length (heap this)" by (rule map_eq_imp_length_eq)
  from eq have ac: "all_children h' = all_children (heap this)" by (simp add: all_children_def)
  from eq have le: "heap_le (heap this) h'" by (rule heap_le_same_children [OF sym])
  have "\<forall>n < length h'. n \<notin> U \<longrightarrow> reachable h' n"
  proof (intro allI impI)
    fix n assume "n < length h'" "n \<notin> U"
    with inv len have "reachable (heap this) n" by (simp add: tree_inv_def)
    then show "reachable h' n" using le by (rule reachable_mono)
  qed
  with inv len ac show ?thesis by (simp add: tree_inv_def)
qed

lemma willResolveField_tree:
  assumes inv: "tree_inv {} this" and ne: "responsePathAsString (Some rp) \<noteq> ''''"
  shows "\<exists>n this'. willResolveField rp rt pt t this = Inr (n, this') \<and> tree_inv {} this'
      \<and> n = length (heap this) \<and> n < length (heap this')
      \<and> map_of (nodes this') (responsePathAsString (Some rp)) = Some n
      \<and> (\<exists>par. map_of (nodes this') (responsePathAsString (prev rp)) = Some par
            \<and> par < length (heap this') \<and> n \<in> set (child (heap this' ! par)))"
proof -
  have "pending_ok (length (responsePathAsString (Some rp))) {} this"
    by (simp add: pending_ok_def)
  with newNode_tree [rule_format, of "{}" this rp] inv ne
  obtain n this1 where new: "newNode rp this = Inr (n, this1)"
    and inv1: "tree_inv {} this1" and n: "n = length (heap this)" "n < length (heap this1)"
    and reg: "map_of (nodes this1) (responsePathAsString (Some rp)) = Some n"
    and par: "\<exists>par. map_of (nodes this1) (responsePathAsString (prev rp)) = Some par
        \<and> par < length (heap this1) \<and> n \<in> set (child (heap this1 ! par))"
    by blast
  let ?x = "(heap this1 ! n)\<lparr>type := rt, parentType := pt,
      Node.startTime := durationHrTimeToNanos t\<rparr>"
  let ?h = "(heap this1)[n := ?x]"
  have mc: "map child ?h = map child (heap this1)"
    by (rule map_child_update_fields) simp
  have w: "willResolveField rp rt pt t this = Inr (n, this1\<lparr>heap := ?h\<rparr>)"
    using new by (simp add: willResolveField_def)
  have inv2: "tree_inv {} (this1\<lparr>heap := ?h\<rparr>)" using inv1 mc by (rule tree_inv_same_children)
  from par obtain p where p: "map_of (nodes this1) (responsePathAsString (prev rp)) = Some p"
    "p < length (heap this1)" "n \<in> set (child (heap this1 ! p))" by blast
  from mc p(2) have "child (?h ! p) = child (heap this1 ! p)"
    by (metis length_list_update nth_map)
  with p have par2: "\<exists>par. map_of (nodes (this1\<lparr>heap := ?h\<rparr>)) (responsePathAsString (prev rp)) = Some par
      \<and> par < length (heap (this1\<lparr>heap := ?h\<rparr>)) \<and> n \<in> set (child (heap (this1\<lparr>heap := ?h\<rparr>) ! par))"
    by (intro exI [of _ p]) simp
  from w inv2 n reg par2 show ?thesis
    by (intro exI [of _ n] exI [of _ "this1\<lparr>heap := ?h\<rparr>"]) simp
qed

lemma didResolveField_tree:
  assumes "tree_inv {} this"
  shows "tree_inv {} (didResolveField n t this)"
  unfolding didResolveField_def using assms
  by (rule tree_inv_same_children) (rule map_child_update_fields, simp)





lemma newNode_registers:
  "\<forall>n this'. newNode rp this = Inr (n, this')
     \<longrightarrow> n = length (heap this)
       \<and> map_of (nodes this') (responsePathAsString (Some rp)) = Some n
       \<and> (\<forall>k. length (responsePathAsString (Some rp)) < length k
             \<longrightarrow> map_of (nodes this') k = map_of (nodes this) k)"
  and ensureParentNode_registers:
  "\<forall>n this'. ensureParentNode rp this = Inr (n, this')
     \<longrightarrow> map_of (nodes this') (responsePathAsString (prev rp)) = Some n
       \<and> (\<forall>k. length (responsePathAsString (prev rp)) < length k
             \<longrightarrow> map_of (nodes this') k = map_of (nodes this) k)"
proof (induction rp this and rp this rule: newNode_ensureParentNode.induct)
  case (1 rp this)
  let ?K = "responsePathAsString (Some rp)"
  let ?P = "responsePathAsString (prev rp)"
  let ?c = "length (heap this)"
  let ?this1 = "this\<lparr>heap := heap this @ [with_id (key rp) new_Node],
                      nodes := AList.update ?K ?c (nodes this)\<rparr>"
  show ?case
  proof (intro allI impI)
    fix n this'
    assume new: "newNode rp this = Inr (n, this')"
    then obtain par this2 where e: "ensureParentNode rp ?this1 = Inr (par, this2)"
      and n: "n = ?c" and t: "this' = push_child par ?c this2"
      by (auto simp: newNode.simps [of rp this] Let_def simp del: responsePathAsString.simps
          split: sum.splits)
    from "1.IH" [OF refl refl, rule_format, OF e]
    have regP: "map_of (nodes this2) ?P = Some par"
      and frame: "\<forall>k. length ?P < length k \<longrightarrow> map_of (nodes this2) k = map_of (nodes ?this1) k"
      by simp_all
    have same: "map_of (nodes this2) k = map_of (nodes ?this1) k" if "length ?K \<le> length k" for k
    proof (cases "prev rp")
      case None
      from e None have "this2 = ?this1"
        by (auto simp: ensureParentNode.simps [of rp ?this1] Let_def
            simp del: responsePathAsString.simps(2) split: option.splits)
      then show ?thesis by simp
    next
      case (Some pp)
      then have "length ?P < length ?K" by (simp only: key_length_Some)
      with that frame show ?thesis by simp
    qed
    have regK: "map_of (nodes this') ?K = Some n"
      using same [of ?K] n t
      by (simp add: push_child_def update_conv' del: responsePathAsString.simps)
    have frameK: "\<forall>k. length ?K < length k \<longrightarrow> map_of (nodes this') k = map_of (nodes this) k"
    proof (intro allI impI)
      fix k :: string assume k: "length ?K < length k"
      then have "k \<noteq> ?K" by auto
      with same [of k] k t show "map_of (nodes this') k = map_of (nodes this) k"
        by (simp add: push_child_def update_conv' del: responsePathAsString.simps)
    qed
    from n regK frameK
    show "n = ?c \<and> map_of (nodes this') ?K = Some n
        \<and> (\<forall>k. length ?K < length k \<longrightarrow> map_of (nodes this') k = map_of (nodes this) k)"
      by simp
  qed
next
  case (2 rp this)
  let ?P = "responsePathAsString (prev rp)"
  show ?case
  proof (intro allI impI)
    fix n this'
    assume e: "ensureParentNode rp this = Inr (n, this')"
    show "map_of (nodes this') ?P = Some n
        \<and> (\<forall>k. length ?P < length k \<longrightarrow> map_of (nodes this') k = map_of (nodes this) k)"
    proof (cases "map_of (nodes this) ?P")
      case (Some par)
      with e show ?thesis
        by (simp add: ensureParentNode.simps [of rp this] Let_def del: responsePathAsString.simps)
    next
      case None
      with e obtain pp where pp: "prev rp = Some pp" and new: "newNode pp this = Inr (n, this')"
        by (auto simp: ensureParentNode.simps [of rp this] Let_def
            simp del: responsePathAsString.simps split: option.splits)
      from "2.IH" [OF refl None pp, rule_format, OF new] pp show ?thesis by simp
    qed
  qed
qed















lemma update_fresh_key: "k \<notin> fst ` set al \<Longrightarrow> AList.update k v al = al @ [(k, v)]"
  by (induction al) auto

lemma ensureParentNode_idempotent:
  assumes "ensureParentNode rp this = Inr (n, this')"
  shows "ensureParentNode rp this' = Inr (n, this')"
proof -
  from ensureParentNode_registers [rule_format, OF assms]
  have "map_of (nodes this') (responsePathAsString (prev rp)) = Some n" by simp
  then show ?thesis
    by (simp add: ensureParentNode.simps [of rp this'] Let_def del: responsePathAsString.simps)
qed

lemma registry_alloc:
  assumes b: "registry_lists_every_node this" and f: "map_of (nodes this) k = None"
  shows "registry_lists_every_node
           (this\<lparr>heap := heap this @ [x], nodes := AList.update k (length (heap this)) (nodes this)\<rparr>)"
proof -
  from f have "k \<notin> fst ` set (nodes this)" by (simp add: map_of_eq_None_iff)
  then have u: "AList.update k (length (heap this)) (nodes this)
      = nodes this @ [(k, length (heap this))]"
    by (rule update_fresh_key)
  from b f show ?thesis
    by (auto simp: registry_lists_every_node_def u map_of_eq_None_iff)
qed

lemma newNode_registry:
  "registry_lists_every_node this \<and> map_of (nodes this) (responsePathAsString (Some rp)) = None
     \<longrightarrow> (\<forall>n this'. newNode rp this = Inr (n, this') \<longrightarrow> registry_lists_every_node this')"
  and ensureParentNode_registry:
  "registry_lists_every_node this
     \<longrightarrow> (\<forall>n this'. ensureParentNode rp this = Inr (n, this') \<longrightarrow> registry_lists_every_node this')"
proof (induction rp this and rp this rule: newNode_ensureParentNode.induct)
  case (1 rp this)
  let ?K = "responsePathAsString (Some rp)"
  let ?c = "length (heap this)"
  let ?this1 = "this\<lparr>heap := heap this @ [with_id (key rp) new_Node],
                      nodes := AList.update ?K ?c (nodes this)\<rparr>"
  show ?case
  proof (intro allI impI)
    fix n this'
    assume a: "registry_lists_every_node this \<and> map_of (nodes this) ?K = None"
      and new: "newNode rp this = Inr (n, this')"
    from new obtain par this2 where e: "ensureParentNode rp ?this1 = Inr (par, this2)"
      and t: "this' = push_child par ?c this2"
      by (auto simp: newNode.simps [of rp this] Let_def simp del: responsePathAsString.simps
          split: sum.splits)
    from a have "registry_lists_every_node ?this1" by (simp only: registry_alloc)
    with "1.IH" [OF refl refl] e have "registry_lists_every_node this2" by blast
    with t show "registry_lists_every_node this'"
      by (simp add: registry_lists_every_node_def push_child_def)
  qed
next
  case (2 rp this)
  let ?P = "responsePathAsString (prev rp)"
  show ?case
  proof (intro allI impI)
    fix n this'
    assume b: "registry_lists_every_node this"
      and e: "ensureParentNode rp this = Inr (n, this')"
    show "registry_lists_every_node this'"
    proof (cases "map_of (nodes this) ?P")
      case (Some par)
      with e b show ?thesis
        by (simp add: ensureParentNode.simps [of rp this] Let_def del: responsePathAsString.simps)
    next
      case None
      with e obtain pp where pp: "prev rp = Some pp" and new: "newNode pp this = Inr (n, this')"
        by (auto simp: ensureParentNode.simps [of rp this] Let_def
            simp del: responsePathAsString.simps split: option.splits)
      from None pp have "map_of (nodes this) (responsePathAsString (Some pp)) = None" by simp
      with "2.IH" [OF refl None pp] b new show ?thesis by blast
    qed
  qed
qed

lemma registry_same_nodes:
  assumes "registry_lists_every_node this" and "length h' = length (heap this)"
  shows "registry_lists_every_node (this\<lparr>heap := h'\<rparr>)"
  using assms by (simp add: registry_lists_every_node_def)

lemma registry_new_Extension: "registry_lists_every_node (new_Extension opts)"
  by (simp add: registry_lists_every_node_def new_Extension_def)

lemma fresh_starts_registry:
  assumes "tree_inv {} this" and "registry_lists_every_node this" and "fresh_starts events this"
  shows "\<exists>this'. field_events events this = Inr this' \<and> tree_inv {} this'
      \<and> registry_lists_every_node this'"
  using assms
proof (induction events arbitrary: this)
  case Nil
  then show ?case by (simp add: field_events_def)
next
  case (Cons ev events)
  show ?case
  proof (cases ev)
    case (ResolveStart rp rt pt t)
    with Cons.prems(3) have fr: "map_of (nodes this) (responsePathAsString (Some rp)) = None"
      by simp
    from Cons.prems(1) have "map_of (nodes this) '''' = Some 0" by (simp add: tree_inv_def)
    with fr have ne: "responsePathAsString (Some rp) \<noteq> ''''" by auto
    from willResolveField_tree [OF Cons.prems(1) ne, of rt pt t]
    obtain n this1 where w: "willResolveField rp rt pt t this = Inr (n, this1)"
      and inv1: "tree_inv {} this1" by blast
    from w obtain this0 where new: "newNode rp this = Inr (n, this0)"
      and t1: "this1 = this0\<lparr>heap := (heap this0)
                 [n := (heap this0 ! n)\<lparr>type := rt, parentType := pt,
                            Node.startTime := durationHrTimeToNanos t\<rparr>]\<rparr>"
      by (auto simp: willResolveField_def split: sum.splits)
    from newNode_registry [of this rp] Cons.prems(2) fr new
    have "registry_lists_every_node this0" by blast
    then have reg1: "registry_lists_every_node this1"
      unfolding t1 by (rule registry_same_nodes) simp
    from Cons.prems(3) ResolveStart w have "fresh_starts events this1" by simp
    from Cons.IH [OF inv1 reg1 this] obtain this' where "field_events events this1 = Inr this'"
      "tree_inv {} this'" "registry_lists_every_node this'" by blast
    with w ResolveStart show ?thesis by (simp add: field_events_def)
  next
    case (ResolveEnd n t)
    have inv1: "tree_inv {} (didResolveField n t this)"
      using Cons.prems(1) by (rule didResolveField_tree)
    have reg1: "registry_lists_every_node (didResolveField n t this)"
      unfolding didResolveField_def using Cons.prems(2) by (rule registry_same_nodes) simp
    from Cons.prems(3) ResolveEnd have "fresh_starts events (didResolveField n t this)" by simp
    from Cons.IH [OF inv1 reg1 this] obtain this' where
      "field_events events (didResolveField n t this) = Inr this'" "tree_inv {} this'"
      "registry_lists_every_node this'" by blast
    with ResolveEnd show ?thesis by (simp add: field_events_def)
  qed
qed

text \<open>
  Claim C2, as amended. Looking a path's parent up twice through \<^verbatim>\<open>ensureParentNode\<close>
  creates nothing the second time: the second call returns the node of the first and
  leaves the extension as it is. \<^verbatim>\<open>newNode\<close> creates a node at every call and leaves it
  registered as the one node of the path's key. After any sequence of field events in
  which no start event arrives for a key that is registered already, the registry holds
  every key once and every node of the heap once, and the nodes form a connected tree in
  which every node but the root occurs exactly once: no two nodes stem from one path.
\<close>

theorem one_node_per_path:
  "(\<forall>rp this n this'. ensureParentNode rp this = Inr (n, this')
        \<longrightarrow> ensureParentNode rp this' = Inr (n, this'))
   \<and> (\<forall>rp this n this'. newNode rp this = Inr (n, this')
        \<longrightarrow> n = length (heap this)
          \<and> map_of (nodes this') (responsePathAsString (Some rp)) = Some n)
   \<and> (\<forall>opts events. fresh_starts events (new_Extension opts)
        \<longrightarrow> (\<exists>this. field_events events (new_Extension opts) = Inr this
              \<and> registry_lists_every_node this \<and> connected_tree this))"
proof (intro conjI allI impI)
  fix rp n and this this' :: Extension
  assume "ensureParentNode rp this = Inr (n, this')"
  then show "ensureParentNode rp this' = Inr (n, this')" by (rule ensureParentNode_idempotent)
next
  fix rp n and this this' :: Extension
  assume new: "newNode rp this = Inr (n, this')"
  from newNode_registers [rule_format, OF new] show "n = length (heap this)" by simp
  from newNode_registers [rule_format, OF new]
  show "map_of (nodes this') (responsePathAsString (Some rp)) = Some n" by simp
next
  fix opts events
  assume "fresh_starts events (new_Extension opts)"
  from fresh_starts_registry [OF tree_inv_new_Extension registry_new_Extension this]
  obtain this where "field_events events (new_Extension opts) = Inr this" "tree_inv {} this"
    "registry_lists_every_node this" by blast
  then show "\<exists>this. field_events events (new_Extension opts) = Inr this
      \<and> registry_lists_every_node this \<and> connected_tree this"
    by (auto intro: tree_inv_connected)
qed

lemma parent_then_child_fresh: "fresh_starts parent_then_child (new_Extension no_options)"
  by (simp add: parent_then_child_def new_Extension_def willResolveField_def
      newNode.simps ensureParentNode.simps path_a_def path_a_b_def push_child_def
      responsePathAsArray_def new_Node_def didResolveField_def Let_def)

lemma ensureParentNode_example:
  "ensureParentNode path_a_b (new_Extension no_options)
     = Inr (1, push_child 0 1 ((new_Extension no_options)
         \<lparr>heap := [new_Node, with_id (FieldName ''a'') new_Node],
           nodes := [('''', 0), (''a'', 1)]\<rparr>))"
  by (simp add: new_Extension_def newNode.simps ensureParentNode.simps path_a_def path_a_b_def
      responsePathAsArray_def Let_def)

theorem one_node_per_path_witness:
  "fresh_starts parent_then_child (new_Extension no_options)
   \<and> (\<exists>this. field_events parent_then_child (new_Extension no_options) = Inr this
         \<and> registry_lists_every_node this \<and> connected_tree this)
   \<and> ensureParentNode path_a_b (new_Extension no_options)
       = Inr (1, push_child 0 1 ((new_Extension no_options)
           \<lparr>heap := [new_Node, with_id (FieldName ''a'') new_Node],
             nodes := [('''', 0), (''a'', 1)]\<rparr>))
   \<and> ensureParentNode path_a_b (push_child 0 1 ((new_Extension no_options)
           \<lparr>heap := [new_Node, with_id (FieldName ''a'') new_Node],
             nodes := [('''', 0), (''a'', 1)]\<rparr>))
       = Inr (1, push_child 0 1 ((new_Extension no_options)
           \<lparr>heap := [new_Node, with_id (FieldName ''a'') new_Node],
             nodes := [('''', 0), (''a'', 1)]\<rparr>))"
proof -
  note h1 = parent_then_child_fresh
  note c1 = one_node_per_path [THEN conjunct2, THEN conjunct2, rule_format,
      of parent_then_child no_options, OF h1]
  note h2 = ensureParentNode_example
  note c2 = one_node_per_path [THEN conjunct1, rule_format, OF h2]
  from h1 c1 h2 c2 show ?thesis by iprover
qed

text \<open>
  The claim as it stands has the same path processed twice create no second node. Two
  start events for the field \<open>a\<close> leave two nodes of that field in the root's child
  sequence, of which the registry holds the second.
\<close>

theorem same_path_twice_creates_two_nodes:
  "(case field_events same_path_twice (new_Extension no_options) of
      Inl e \<Rightarrow> False
    | Inr this \<Rightarrow>
        nodes this = [('''', 0), (''a'', 2)]
        \<and> map child (heap this) = [[1, 2], [], []]
        \<and> map fieldName (heap this) = [None, Some ''a'', Some ''a'']
        \<and> \<not> registry_lists_every_node this)"
proof -
  have "{0, Suc (Suc 0)} \<noteq> {0 ..< Suc (Suc (Suc 0))}"
  proof
    assume "{0, Suc (Suc 0)} = {0 ..< Suc (Suc (Suc 0))}"
    moreover have "Suc 0 \<in> {0 ..< Suc (Suc (Suc 0))}" by simp
    ultimately have "Suc 0 \<in> {0, Suc (Suc 0)}" by (simp only:)
    then show False by simp
  qed
  then show ?thesis
    by (simp add: field_events_def same_path_twice_def new_Extension_def willResolveField_def
        newNode.simps ensureParentNode.simps path_a_def push_child_def
        responsePathAsArray_def registry_lists_every_node_def new_Node_def Let_def)
qed

section \<open>Facts about the rewrite hook\<close>



lemma forEach_single: "forEach f [x] s = f x s"
  by (simp split: sum.splits)























section \<open>Facts about the summary flags of a trace\<close>

text \<open>
  Claim C4, where the code departs from it. \<^verbatim>\<open>requestDidEnd\<close> sets the cache-hit, the
  forbidden and the registered-operation flag from the metrics of the request context as
  it is at the end, for every configuration. The two persisted-query flags are set in
  \<^verbatim>\<open>requestDidStart\<close>, inside the block that records the headers: with neither
  \<^verbatim>\<open>sendHeaders\<close> nor \<^verbatim>\<open>privateHeaders\<close> configured, a request whose metrics report a
  persisted-query hit and a registration ends with both flags false in its trace; the
  same request with a header option configured ends with both flags true.
\<close>

theorem persisted_query_flags_depend_on_header_option:
  "(\<forall>captured requestContext now elapsed this.
      fullQueryCacheHit (arg_trace (snd (requestDidEnd captured requestContext now elapsed this)))
        = truthy (responseCacheHit (metrics requestContext))
      \<and> Trace.forbiddenOperation
          (arg_trace (snd (requestDidEnd captured requestContext now elapsed this)))
        = truthy (Metrics.forbiddenOperation (metrics requestContext))
      \<and> Trace.registeredOperation
          (arg_trace (snd (requestDidEnd captured requestContext now elapsed this)))
        = truthy (Metrics.registeredOperation (metrics requestContext)))
   \<and> truthy (Metrics.persistedQueryHit (metrics persisted_hit_context))
   \<and> truthy (Metrics.persistedQueryRegister (metrics persisted_hit_context))
   \<and> (case completed_trace no_options persisted_hit_request persisted_hit_context of
         Inl e \<Rightarrow> False
       | Inr t \<Rightarrow> persistedQueryHit t = False \<and> persistedQueryRegister t = False
           \<and> fullQueryCacheHit t = True)
   \<and> (case completed_trace (no_options\<lparr>sendHeaders := Some (HeadersSafelistAll True)\<rparr>)
            persisted_hit_request persisted_hit_context of
         Inl e \<Rightarrow> False
       | Inr t \<Rightarrow> persistedQueryHit t = True \<and> persistedQueryRegister t = True
           \<and> fullQueryCacheHit t = True)"
proof (intro conjI allI)
  fix captured requestContext now elapsed this
  show "fullQueryCacheHit (arg_trace (snd (requestDidEnd captured requestContext now elapsed this)))
      = truthy (responseCacheHit (metrics requestContext))"
    by (simp add: requestDidEnd_def Let_def)
  show "Trace.forbiddenOperation
        (arg_trace (snd (requestDidEnd captured requestContext now elapsed this)))
      = truthy (Metrics.forbiddenOperation (metrics requestContext))"
    by (simp add: requestDidEnd_def Let_def)
  show "Trace.registeredOperation
        (arg_trace (snd (requestDidEnd captured requestContext now elapsed this)))
      = truthy (Metrics.registeredOperation (metrics requestContext))"
    by (simp add: requestDidEnd_def Let_def)
next
  show "truthy (Metrics.persistedQueryHit (metrics persisted_hit_context))"
    by (simp add: truthy_def persisted_hit_context_def)
  show "truthy (Metrics.persistedQueryRegister (metrics persisted_hit_context))"
    by (simp add: truthy_def persisted_hit_context_def)
next
  show "case completed_trace no_options persisted_hit_request persisted_hit_context of
      Inl e \<Rightarrow> False
    | Inr t \<Rightarrow> persistedQueryHit t = False \<and> persistedQueryRegister t = False
        \<and> fullQueryCacheHit t = True"
    by (simp add: completed_trace_def requestDidStart_def requestDidEnd_def headers_block_def
        details_block_def client_block_def no_options_def persisted_hit_request_def
        persisted_hit_context_def new_Extension_def new_Trace_def truthy_def Let_def
        defaultGenerateClientInfo_def)
next
  show "case completed_trace (no_options\<lparr>sendHeaders := Some (HeadersSafelistAll True)\<rparr>)
        persisted_hit_request persisted_hit_context of
      Inl e \<Rightarrow> False
    | Inr t \<Rightarrow> persistedQueryHit t = True \<and> persistedQueryRegister t = True
        \<and> fullQueryCacheHit t = True"
    by (simp add: completed_trace_def requestDidStart_def requestDidEnd_def headers_block_def
        details_block_def client_block_def no_options_def persisted_hit_request_def
        persisted_hit_context_def new_Extension_def new_Trace_def truthy_def Let_def
        defaultGenerateClientInfo_def)
qed

end
